theory Spec2Isabelle
  imports Complex_Main "HOL-Library.Multiset" "HOL-Library.Log_Nat"
begin

section \<open>Data model of the biscuit-roll genetic algorithm\<close>

text \<open>
  The notebook \<^verbatim>\<open>genetic_algorithm.ipynb\<close> works on plain Python values: a chromosome is a
  one-dimensional numpy array of item-type identifiers, the catalog \<^verbatim>\<open>biscuits_list\<close> is a
  dict from identifier to a dict with the keys \<^verbatim>\<open>value\<close>, \<^verbatim>\<open>size\<close> and \<^verbatim>\<open>threshold\<close>, and
  \<^verbatim>\<open>roll_defects\<close> is a dict from position to a dict from defect class to a count.

  Numbers: identifiers, positions and defect counts are Python integers (\<open>int\<close>); lengths
  are natural numbers. Scores, values, rates and random draws are rationals: a Python float
  is the rational it stands for. The float operations of the partial-credit evaluator and
  of the elite selection are rounded to the nearest double (next section). The strict
  evaluator only adds catalog values and integers to an integer score: its arithmetic is
  exact, as Python's is for the integer values of the notebook's catalog.
  Every exception the code can raise is a value \<open>Inl e\<close> of the result. \<open>FloatOverflow\<close> is
  not an exception: it marks a float operation of the score computation whose operand or
  result has magnitude \<open>2 ^ 1024\<close> or more. Python goes on with an infinity there (or raises
  OverflowError, when it converts an integer that large); the model stops, so that every
  score it returns is the finite double the code returns.
\<close>

datatype py_error = KeyError | ValueError | IndexError | OverflowError | FloatOverflow

type_synonym chromosome = "int list"

text \<open>The defect dict of one position, as its items in insertion order.\<close>

type_synonym pos_defects = "(string \<times> int) list"

type_synonym roll_defects = "int \<rightharpoonup> pos_defects"

type_synonym threshold = "string \<rightharpoonup> int"

text \<open>One catalog entry: \<^verbatim>\<open>{"value": .., "size": .., "threshold": {..}}\<close>.\<close>

record biscuit =
  b_value :: rat
  b_size :: nat
  b_threshold :: threshold

type_synonym biscuits_list = "int \<rightharpoonup> biscuit"

section \<open>Double-precision numbers\<close>

text \<open>
  A Python float is an IEEE 754 double. \<open>round_double x\<close> is the double nearest to the
  rational \<open>x\<close>, ties going to the even significand: with \<open>2 ^ k \<le> \<bar>x\<bar> < 2 ^ (k + 1)\<close> the
  doubles around \<open>x\<close> are the multiples of \<open>2 ^ (k - 52)\<close>, and the multiples of \<open>2 ^ (- 1074)\<close>
  in the subnormal range. A rounded result of magnitude \<open>2 ^ 1024\<close> or more is no finite
  double: the operation overflows (\<open>overflow\<close> below).
\<close>

definition two_pow :: "int \<Rightarrow> rat" where
  "two_pow e = (if 0 \<le> e then 2 ^ nat e else 1 / 2 ^ nat (- e))"

text \<open>For \<open>x > 0\<close>, the integer \<open>k\<close> with \<open>2 ^ k \<le> x < 2 ^ (k + 1)\<close>.\<close>

definition floor_log2 :: "rat \<Rightarrow> int" where
  "floor_log2 x =
     (case quotient_of x of
        (p, q) \<Rightarrow> let d = bitlen p - bitlen q in if two_pow d \<le> x then d else d - 1)"

definition round_half_even :: "rat \<Rightarrow> int" where
  "round_half_even q =
     (let f = \<lfloor>q\<rfloor>; r = q - of_int f
      in if r < 1 / 2 then f else if 1 / 2 < r then f + 1 else if even f then f else f + 1)"

definition round_double :: "rat \<Rightarrow> rat" where
  "round_double x =
     (if x = 0 then 0
      else
        let e = max (floor_log2 \<bar>x\<bar> - 52) (- 1074)
        in sgn x * of_int (round_half_even (\<bar>x\<bar> / two_pow e)) * two_pow e)"

text \<open>
  The operations the code makes on floats. An integer operand is converted to a double
  first (\<open>to_float\<close>, which leaves a double as it is); the quotient of two integers is
  rounded once; \<^verbatim>\<open>+\<close>, \<^verbatim>\<open>-\<close> and \<^verbatim>\<open>*\<close> are rounded to nearest. The rounding is the identity on the
  integers up to \<open>2 ^ 53\<close>, so the steps Python makes on integers that small are exact here
  too.
\<close>

definition to_float :: "rat \<Rightarrow> rat" where
  "to_float x = round_double x"

definition float_add :: "rat \<Rightarrow> rat \<Rightarrow> rat" where
  "float_add a b = round_double (to_float a + to_float b)"

definition float_sub :: "rat \<Rightarrow> rat \<Rightarrow> rat" where
  "float_sub a b = round_double (to_float a - to_float b)"

definition float_mul :: "rat \<Rightarrow> rat \<Rightarrow> rat" where
  "float_mul a b = round_double (to_float a * to_float b)"

definition true_div :: "nat \<Rightarrow> nat \<Rightarrow> rat" where
  "true_div m n = round_double (of_nat m / of_nat n)"

text \<open>
  An operation overflows when the conversion of an operand or the rounded result leaves the
  range of the finite doubles: its magnitude is \<open>2 ^ 1024\<close> or more, that is, its binary
  exponent is \<open>1024\<close> or more. A rational that large stands for no float.
\<close>

definition overflow :: "rat \<Rightarrow> bool" where
  "overflow x = (x \<noteq> 0 \<and> 1024 \<le> floor_log2 \<bar>x\<bar>)"

definition checked :: "rat \<Rightarrow> rat \<Rightarrow> rat \<Rightarrow> py_error + rat" where
  "checked a b r =
     (if overflow (to_float a) \<or> overflow (to_float b) \<or> overflow r then Inl FloatOverflow
      else Inr r)"

definition checked_add :: "rat \<Rightarrow> rat \<Rightarrow> py_error + rat" where
  "checked_add a b = checked a b (float_add a b)"

definition checked_sub :: "rat \<Rightarrow> rat \<Rightarrow> py_error + rat" where
  "checked_sub a b = checked a b (float_sub a b)"

definition checked_mul :: "rat \<Rightarrow> rat \<Rightarrow> py_error + rat" where
  "checked_mul a b = checked a b (float_mul a b)"

section \<open>Defect check of a range: \<^verbatim>\<open>respect_defects\<close>\<close>

text \<open>
  \<^verbatim>\<open>pos_defects[key] += roll_defects[pos][key]\<close> for every key of one position: a key that the
  accumulator does not hold raises KeyError.
\<close>

fun add_defects :: "(string \<rightharpoonup> int) \<Rightarrow> pos_defects \<Rightarrow> py_error + (string \<rightharpoonup> int)" where
  "add_defects acc [] = Inr acc"
| "add_defects acc ((k, n) # rest) =
     (case acc k of
        None \<Rightarrow> Inl KeyError
      | Some v \<Rightarrow> add_defects (acc(k \<mapsto> v + n)) rest)"

text \<open>The loop \<^verbatim>\<open>for pos in range(start, end)\<close>; a position missing from the table raises.\<close>

fun sum_defects :: "(string \<rightharpoonup> int) \<Rightarrow> int list \<Rightarrow> roll_defects \<Rightarrow> py_error + (string \<rightharpoonup> int)" where
  "sum_defects acc [] roll = Inr acc"
| "sum_defects acc (pos # ps) roll =
     (case roll pos of
        None \<Rightarrow> Inl KeyError
      | Some d \<Rightarrow>
          (case add_defects acc d of
             Inl e \<Rightarrow> Inl e
           | Inr acc' \<Rightarrow> sum_defects acc' ps roll))"

text \<open>
  \<^verbatim>\<open>all(threshold[key] >= pos_defects[key] for key in pos_defects.keys())\<close>: the generator is
  consumed key by key and \<^verbatim>\<open>all\<close> stops at the first false comparison, so a key missing from
  the threshold raises only if every earlier comparison held.
\<close>

fun all_within :: "threshold \<Rightarrow> (string \<rightharpoonup> int) \<Rightarrow> string list \<Rightarrow> py_error + bool" where
  "all_within th acc [] = Inr True"
| "all_within th acc (k # ks) =
     (case th k of
        None \<Rightarrow> Inl KeyError
      | Some t \<Rightarrow>
          (case acc k of
             None \<Rightarrow> Inl KeyError
           | Some v \<Rightarrow> if t \<ge> v then all_within th acc ks else Inr False))"

definition zero_defects :: "string \<rightharpoonup> int" where
  "zero_defects = [''a'' \<mapsto> 0, ''b'' \<mapsto> 0, ''c'' \<mapsto> 0]"

definition respect_defects :: "threshold \<Rightarrow> int \<Rightarrow> int \<Rightarrow> roll_defects \<Rightarrow> py_error + bool" where
  "respect_defects th start end roll =
     (case sum_defects zero_defects [start..end - 1] roll of
        Inl e \<Rightarrow> Inl e
      | Inr acc \<Rightarrow> all_within th acc [''a'', ''b'', ''c''])"

section \<open>The strict evaluator: \<^verbatim>\<open>fitness_1\<close>\<close>

text \<open>
  The body of \<^verbatim>\<open>for i, elem in enumerate(ind)\<close> with the loop variables \<^verbatim>\<open>score\<close>, \<^verbatim>\<open>size\<close>
  and \<^verbatim>\<open>last_elem\<close> threaded through; the result is the pair of \<^verbatim>\<open>score\<close> and \<^verbatim>\<open>size\<close> after
  the last position.
\<close>

fun fitness_1_loop ::
  "biscuits_list \<Rightarrow> roll_defects \<Rightarrow> nat \<Rightarrow> chromosome \<Rightarrow> rat \<Rightarrow> nat \<Rightarrow> int \<Rightarrow> py_error + (rat \<times> nat)"
where
  "fitness_1_loop cat roll i [] score sz last_elem = Inr (score, sz)"
| "fitness_1_loop cat roll i (elem # rest) score sz last_elem =
     (if elem = - 1 then
        fitness_1_loop cat roll (Suc i) rest (score - (1 + of_nat sz)) 0 elem
      else
        let score1 = (if elem \<noteq> last_elem then score - of_nat sz else score);
            sz1 = (if elem \<noteq> last_elem then 1 else sz + 1)
        in (case cat elem of
              None \<Rightarrow> Inl KeyError
            | Some b \<Rightarrow>
                if sz1 = b_size b then
                  (case respect_defects (b_threshold b) (int i - int sz1 + 1) (int i + 1) roll of
                     Inl e \<Rightarrow> Inl e
                   | Inr ok \<Rightarrow>
                       if ok then fitness_1_loop cat roll (Suc i) rest (score1 + b_value b) 0 elem
                       else fitness_1_loop cat roll (Suc i) rest (score1 - 1) (sz1 - 1) elem)
                else fitness_1_loop cat roll (Suc i) rest score1 sz1 elem))"

definition fitness_1 :: "chromosome \<Rightarrow> biscuits_list \<Rightarrow> roll_defects \<Rightarrow> py_error + rat" where
  "fitness_1 ind cat roll =
     (case fitness_1_loop cat roll 0 ind 0 0 (- 2) of
        Inl e \<Rightarrow> Inl e
      | Inr (score, sz) \<Rightarrow> Inr (score - of_nat sz))"

section \<open>The partial-credit evaluator: \<^verbatim>\<open>get_slice_score\<close> and \<^verbatim>\<open>fitness_2\<close>\<close>

text \<open>
  The inner loop \<^verbatim>\<open>while j <= len(unassigned) - last_size\<close> of \<^verbatim>\<open>get_slice_score\<close>, with the
  variables \<^verbatim>\<open>j\<close>, \<^verbatim>\<open>score\<close> and \<^verbatim>\<open>assigned\<close> threaded through. The enclosing loop enters it
  only with \<^verbatim>\<open>last_size != 0\<close>, for which \<^verbatim>\<open>j += last_size - 1; j += 1\<close> is the step
  \<open>Suc (j + (last_size - 1))\<close>.

  The credit \<^verbatim>\<open>(last_size/lb_size)**2 * lb_value\<close> is computed in doubles: the quotient of the
  two integers is rounded, \<^verbatim>\<open>** 2\<close> is the C library's \<^verbatim>\<open>pow\<close>, whose result is not fixed by
  the language and is the parameter \<open>sq\<close> here, and the product and the sum are rounded
  (and checked for overflow). The divisor is not zero: the loop runs with
  \<open>0 < last_size \<le> lb_size\<close> only.
\<close>

function slice_scan ::
  "(rat \<Rightarrow> rat) \<Rightarrow> threshold \<Rightarrow> roll_defects \<Rightarrow> nat \<Rightarrow> rat \<Rightarrow> int list \<Rightarrow> nat \<Rightarrow> nat \<Rightarrow> rat
     \<Rightarrow> int list \<Rightarrow> py_error + (rat \<times> int list)"
where
  "slice_scan sq th roll lb_size lb_value unassigned last_size j score assigned =
     (if int j \<le> int (length unassigned) - int last_size then
        if j < length unassigned then
          let start = unassigned ! j; end = start + int last_size in
          if list_all (\<lambda>elem. elem \<in> set unassigned) [start..end - 1] then
            (case respect_defects th start end roll of
               Inl e \<Rightarrow> Inl e
             | Inr ok \<Rightarrow>
                 if ok then
                   (case checked_mul (sq (true_div last_size lb_size)) lb_value of
                      Inl e \<Rightarrow> Inl e
                    | Inr credit \<Rightarrow>
                        (case checked_add score credit of
                           Inl e \<Rightarrow> Inl e
                         | Inr score' \<Rightarrow>
                             slice_scan sq th roll lb_size lb_value unassigned last_size
                               (Suc (j + (last_size - 1))) score'
                               (assigned @ [start..end - 1])))
                 else
                   slice_scan sq th roll lb_size lb_value unassigned last_size (Suc j) score
                     assigned)
          else slice_scan sq th roll lb_size lb_value unassigned last_size (Suc j) score assigned
        else Inl IndexError
      else Inr (score, assigned))"
  by pat_completeness auto
termination
  by (relation "measure (\<lambda>(sq, th, roll, lb_size, lb_value, unassigned, last_size, j, score,
        assigned). Suc (length unassigned) - j)") auto

text \<open>\<^verbatim>\<open>for assi in assigned: unassigned.remove(assi)\<close>; removing an absent element raises.\<close>

fun remove_each :: "int list \<Rightarrow> int list \<Rightarrow> py_error + int list" where
  "remove_each unassigned [] = Inr unassigned"
| "remove_each unassigned (assi # rest) =
     (if assi \<in> set unassigned then remove_each (remove1 assi unassigned) rest
      else Inl ValueError)"

text \<open>The outer loop \<^verbatim>\<open>while unassigned and last_size != 0\<close> and the final penalty.\<close>

fun slice_passes ::
  "(rat \<Rightarrow> rat) \<Rightarrow> threshold \<Rightarrow> roll_defects \<Rightarrow> nat \<Rightarrow> rat \<Rightarrow> int list \<Rightarrow> nat \<Rightarrow> rat
     \<Rightarrow> py_error + rat"
where
  "slice_passes sq th roll lb_size lb_value unassigned last_size score =
     (if unassigned \<noteq> [] \<and> last_size \<noteq> 0 then
        (case slice_scan sq th roll lb_size lb_value unassigned last_size 0 score [] of
           Inl e \<Rightarrow> Inl e
         | Inr (score', assigned) \<Rightarrow>
             (case remove_each unassigned assigned of
                Inl e \<Rightarrow> Inl e
              | Inr unassigned' \<Rightarrow>
                  slice_passes sq th roll lb_size lb_value unassigned' (last_size - 1) score'))
      else checked_sub score (of_nat (length unassigned)))"

definition get_slice_score ::
  "(rat \<Rightarrow> rat) \<Rightarrow> int \<Rightarrow> nat \<Rightarrow> nat \<Rightarrow> rat \<Rightarrow> threshold \<Rightarrow> roll_defects \<Rightarrow> py_error + rat"
where
  "get_slice_score sq position sz lb_size lb_value lb_threshold roll =
     slice_passes sq lb_threshold roll lb_size lb_value
       [position - int sz..position - 1] (min lb_size sz) 0"



section \<open>The Population Evolver: \<^verbatim>\<open>evolve_pop\<close>\<close>

type_synonym fitness_fn = "chromosome \<Rightarrow> biscuits_list \<Rightarrow> roll_defects \<Rightarrow> py_error + rat"

text \<open>\<^verbatim>\<open>[fitness(ind, biscuits_list, roll_defects) for ind in population]\<close>.\<close>

fun fitness_values ::
  "fitness_fn \<Rightarrow> biscuits_list \<Rightarrow> roll_defects \<Rightarrow> chromosome list \<Rightarrow> py_error + rat list"
where
  "fitness_values fitness cat roll [] = Inr []"
| "fitness_values fitness cat roll (ind # rest) =
     (case fitness ind cat roll of
        Inl e \<Rightarrow> Inl e
      | Inr f \<Rightarrow>
          (case fitness_values fitness cat roll rest of
             Inl e \<Rightarrow> Inl e
           | Inr fs \<Rightarrow> Inr (f # fs)))"

text \<open>
  \<^verbatim>\<open>np.argsort\<close> returns the indices in ascending order of their values; its default
  algorithm is not stable, so the order of the indices of equal values is not fixed by the
  code. The sorting function is therefore a parameter \<open>srt\<close> of the model, and \<open>argsort_ok\<close> is
  what numpy guarantees of it: a permutation of the indices along which the values ascend.
\<close>

definition argsort_ok :: "(rat list \<Rightarrow> nat list) \<Rightarrow> bool" where
  "argsort_ok srt =
     (\<forall>vals. mset (srt vals) = mset [0..<length vals] \<and> sorted (map (\<lambda>i. vals ! i) (srt vals)))"

text \<open>Python's \<^verbatim>\<open>int(x)\<close> on a number: truncation toward zero.\<close>

definition py_int :: "rat \<Rightarrow> int" where
  "py_int x = (if x < 0 then \<lceil>x\<rceil> else \<lfloor>x\<rfloor>)"

text \<open>The slice \<^verbatim>\<open>xs[k:]\<close>: a negative \<open>k\<close> counts from the end, and both ends are clipped.\<close>

definition slice_from :: "int \<Rightarrow> 'a list \<Rightarrow> 'a list" where
  "slice_from k xs =
     drop (nat (if k < 0 then max (int (length xs) + k) 0 else min k (int (length xs)))) xs"

text \<open>
  \<^verbatim>\<open>elite_idx = np.argsort(fitness_values)[int(-len(population) * elite_ratio):]\<close> and
  \<^verbatim>\<open>elites = [population[i] for i in elite_idx]\<close>. The product of the integer and the float
  \<^verbatim>\<open>elite_ratio\<close> is a double product. When it overflows, \<^verbatim>\<open>int\<close> raises OverflowError on the
  infinity (as the conversion of a length of \<open>2 ^ 1024\<close> or more does): \<open>elite_cut_overflows\<close>,
  which \<open>evolve_pop\<close> tests before it takes the slice.
\<close>

definition elite_cut_overflows :: "nat \<Rightarrow> rat \<Rightarrow> bool" where
  "elite_cut_overflows n elite_ratio =
     (overflow (to_float (of_nat n)) \<or> overflow (float_mul (- of_nat n) elite_ratio))"

definition elite_idx ::
  "(rat list \<Rightarrow> nat list) \<Rightarrow> chromosome list \<Rightarrow> rat \<Rightarrow> rat list \<Rightarrow> nat list"
where
  "elite_idx srt population elite_ratio fv =
     slice_from (py_int (float_mul (- of_nat (length population)) elite_ratio)) (srt fv)"

definition select_elites ::
  "(rat list \<Rightarrow> nat list) \<Rightarrow> chromosome list \<Rightarrow> rat \<Rightarrow> rat list \<Rightarrow> chromosome list"
where
  "select_elites srt population elite_ratio fv =
     map (\<lambda>i. population ! i) (elite_idx srt population elite_ratio fv)"

text \<open>
  The selection weights. They only parameterise the random choice of the parents, whose
  outcome is part of the draws below; their arithmetic is left exact.
\<close>

definition shifted_fitness :: "rat list \<Rightarrow> rat list" where
  "shifted_fitness fv = map (\<lambda>f. f - Min (set fv) + 1) fv"

definition probabilities :: "rat list \<Rightarrow> rat list" where
  "probabilities fv = map (\<lambda>f. f / sum_list (shifted_fitness fv)) (shifted_fitness fv)"

text \<open>
  The random outcomes consumed while one child is made: the two parent indices of
  \<^verbatim>\<open>np.random.choice(len(population), size=2, replace=False, p=probabilities)\<close>, the three
  breakpoints of \<^verbatim>\<open>np.random.choice(len(parent1), size=3, replace=False)\<close>, the value of
  \<^verbatim>\<open>random.random()\<close> for each segment, and for each gene the value of \<^verbatim>\<open>random.random()\<close>
  and the value \<^verbatim>\<open>random.randint(-1, 3)\<close> returns if it is called.
\<close>

record child_draws =
  parents_indices :: "nat \<times> nat"
  break_points :: "nat \<times> nat \<times> nat"
  coin :: "nat \<Rightarrow> rat"
  mut_u :: "nat \<Rightarrow> rat"
  mut_int :: "nat \<Rightarrow> int"

text \<open>
  What the random sources can return for a population of \<open>n\<close> chromosomes of length \<open>len\<close>:
  two distinct indices, three distinct positions, numbers in \<open>[0, 1)\<close> and integers from \<open>-1\<close>
  to \<open>3\<close>.
\<close>

definition valid_draws :: "nat \<Rightarrow> nat \<Rightarrow> child_draws \<Rightarrow> bool" where
  "valid_draws n len d =
     (case (parents_indices d, break_points d) of
        ((p1, p2), (b1, b2, b3)) \<Rightarrow>
          p1 < n \<and> p2 < n \<and> p1 \<noteq> p2 \<and>
          b1 < len \<and> b2 < len \<and> b3 < len \<and> b1 \<noteq> b2 \<and> b1 \<noteq> b3 \<and> b2 \<noteq> b3 \<and>
          (\<forall>i. 0 \<le> coin d i \<and> coin d i < 1) \<and>
          (\<forall>g. 0 \<le> mut_u d g \<and> mut_u d g < 1 \<and> - 1 \<le> mut_int d g \<and> mut_int d g \<le> 3))"

text \<open>
  The numpy assignment \<^verbatim>\<open>child[start:end] = src[start:end]\<close> for \<open>0 \<le> start \<le> end\<close>: the
  right-hand slice must have the length of the left-hand one, or length one (it is then
  broadcast); anything else raises ValueError.
\<close>

definition slice_assign :: "chromosome \<Rightarrow> nat \<Rightarrow> nat \<Rightarrow> chromosome \<Rightarrow> py_error + chromosome" where
  "slice_assign child start end src =
     (let lhs_len = min end (length child) - min start (length child);
          rhs = take (end - start) (drop start src)
      in if length rhs = lhs_len then Inr (take start child @ rhs @ drop end child)
         else if length rhs = 1 then
           Inr (take start child @ replicate lhs_len (hd rhs) @ drop end child)
         else Inl ValueError)"

text \<open>
  \<^verbatim>\<open>for i in range(len(break_points)-1)\<close>: each segment between two successive sorted
  breakpoints is copied from \<^verbatim>\<open>parent1 if random.random() < 0.5 else parent2\<close>.
\<close>

fun cross_segments ::
  "chromosome \<Rightarrow> chromosome \<Rightarrow> chromosome \<Rightarrow> nat list \<Rightarrow> (nat \<Rightarrow> rat) \<Rightarrow> nat \<Rightarrow> py_error + chromosome"
where
  "cross_segments child parent1 parent2 (start # end # bps) flip i =
     (case slice_assign child start end (if flip i < 1 / 2 then parent1 else parent2) of
        Inl e \<Rightarrow> Inl e
      | Inr child' \<Rightarrow> cross_segments child' parent1 parent2 (end # bps) flip (Suc i))"
| "cross_segments child parent1 parent2 bps flip i = Inr child"

text \<open>
  The crossover block: \<^verbatim>\<open>child = np.zeros(parent1.shape)\<close>, the breakpoints with \<open>0\<close> and
  \<^verbatim>\<open>len(parent1)\<close> inserted in front, sorted.
\<close>

definition crossover ::
  "chromosome \<Rightarrow> chromosome \<Rightarrow> nat \<times> nat \<times> nat \<Rightarrow> (nat \<Rightarrow> rat) \<Rightarrow> py_error + chromosome"
where
  "crossover parent1 parent2 bp flip =
     (case bp of (b1, b2, b3) \<Rightarrow>
        cross_segments (replicate (length parent1) 0) parent1 parent2
          (sort [0, length parent1, b1, b2, b3]) flip 0)"

text \<open>
  The mutation line:
  \<^verbatim>\<open>[gene if random.random() > mutation_rate else random.randint(-1, 3) for gene in child]\<close>.
\<close>

fun mutation :: "(nat \<Rightarrow> rat) \<Rightarrow> (nat \<Rightarrow> int) \<Rightarrow> rat \<Rightarrow> nat \<Rightarrow> chromosome \<Rightarrow> chromosome" where
  "mutation u r mutation_rate g [] = []"
| "mutation u r mutation_rate g (gene # rest) =
     (if u g > mutation_rate then gene else r g) # mutation u r mutation_rate (Suc g) rest"

text \<open>
  One pass of the body of the \<^verbatim>\<open>while\<close> loop. Choosing two of fewer than two individuals, or
  three breakpoints in a chromosome shorter than three, raises ValueError in numpy.
\<close>

definition make_child :: "child_draws \<Rightarrow> chromosome list \<Rightarrow> rat \<Rightarrow> py_error + chromosome" where
  "make_child d population mutation_rate =
     (if length population < 2 then Inl ValueError
      else
        let parent1 = population ! fst (parents_indices d);
            parent2 = population ! snd (parents_indices d)
        in if length parent1 < 3 then Inl ValueError
           else
             (case crossover parent1 parent2 (break_points d) (coin d) of
                Inl e \<Rightarrow> Inl e
              | Inr child \<Rightarrow> Inr (mutation (mut_u d) (mut_int d) mutation_rate 0 child)))"

text \<open>
  \<^verbatim>\<open>while len(new_population) < len(population) - len(elites)\<close>: every pass appends one child,
  so the loop makes \<open>todo\<close> children, the \<open>k\<close>-th with the draws \<open>rnd k\<close>.
\<close>

fun make_children ::
  "(nat \<Rightarrow> child_draws) \<Rightarrow> chromosome list \<Rightarrow> rat \<Rightarrow> nat \<Rightarrow> nat \<Rightarrow> py_error + chromosome list"
where
  "make_children rnd population mutation_rate 0 k = Inr []"
| "make_children rnd population mutation_rate (Suc todo) k =
     (case make_child (rnd k) population mutation_rate of
        Inl e \<Rightarrow> Inl e
      | Inr child \<Rightarrow>
          (case make_children rnd population mutation_rate todo (Suc k) of
             Inl e \<Rightarrow> Inl e
           | Inr children \<Rightarrow> Inr (child # children)))"

text \<open>
  \<^verbatim>\<open>evolve_pop\<close>. The elite cut raises OverflowError when its product overflows;
  \<^verbatim>\<open>min(fitness_values)\<close> raises ValueError on an empty population; the weights are all
  positive, so the division and the weighted choice cannot fail.
\<close>

definition evolve_pop ::
  "(rat list \<Rightarrow> nat list) \<Rightarrow> (nat \<Rightarrow> child_draws) \<Rightarrow> chromosome list \<Rightarrow> rat \<Rightarrow> rat
     \<Rightarrow> biscuits_list \<Rightarrow> roll_defects \<Rightarrow> fitness_fn \<Rightarrow> py_error + chromosome list"
where
  "evolve_pop srt rnd population mutation_rate elite_ratio cat roll fitness =
     (case fitness_values fitness cat roll population of
        Inl e \<Rightarrow> Inl e
      | Inr fv \<Rightarrow>
          if elite_cut_overflows (length population) elite_ratio then Inl OverflowError
          else
            let elites = select_elites srt population elite_ratio fv
            in if fv = [] then Inl ValueError
               else
                 (case make_children rnd population mutation_rate
                         (length population - length elites) 0 of
                    Inl e \<Rightarrow> Inl e
                  | Inr new_population \<Rightarrow> Inr (new_population @ elites)))"

section \<open>The Evolution Driver: \<^verbatim>\<open>genetic_algorithm\<close>\<close>

text \<open>
  The random outcomes of a whole run: the genes \<^verbatim>\<open>np.random.randint(-1, 4, ...)\<close> draws for
  the initial population, and the draws of every child of every generation.
\<close>

record ga_draws =
  init_gene :: "nat \<Rightarrow> nat \<Rightarrow> int"
  gen_draws :: "nat \<Rightarrow> nat \<Rightarrow> child_draws"

text \<open>
  \<^verbatim>\<open>[np.random.randint(-1, 4, size=(roll_size,)) for _ in range(pop_size)]\<close>: no array is made
  when \<^verbatim>\<open>pop_size\<close> is not positive; a negative \<^verbatim>\<open>roll_size\<close> is refused by numpy.
\<close>

definition init_population :: "(nat \<Rightarrow> nat \<Rightarrow> int) \<Rightarrow> int \<Rightarrow> int \<Rightarrow> py_error + chromosome list" where
  "init_population gene pop_size roll_size =
     (if pop_size \<le> 0 then Inr []
      else if roll_size < 0 then Inl ValueError
      else Inr (map (\<lambda>k. map (gene k) [0..<nat roll_size]) [0..<nat pop_size]))"

text \<open>\<^verbatim>\<open>np.argsort(fitness_values)[-1]\<close>: IndexError when there is no individual.\<close>

definition best_index :: "(rat list \<Rightarrow> nat list) \<Rightarrow> rat list \<Rightarrow> py_error + nat" where
  "best_index srt fv = (case srt fv of [] \<Rightarrow> Inl IndexError | _ # _ \<Rightarrow> Inr (last (srt fv)))"

text \<open>
  The progress report of generation \<open>g\<close> (that is \<^verbatim>\<open>i+1\<close>): nothing of the report reaches the
  result, but the fitness evaluation it makes can raise.
\<close>

definition report ::
  "(rat list \<Rightarrow> nat list) \<Rightarrow> int option \<Rightarrow> nat \<Rightarrow> chromosome list \<Rightarrow> biscuits_list
     \<Rightarrow> roll_defects \<Rightarrow> fitness_fn \<Rightarrow> py_error + unit"
where
  "report srt display g population cat roll fitness =
     (case display of
        None \<Rightarrow> Inr ()
      | Some d \<Rightarrow>
          if d \<noteq> 0 \<and> int g mod d = 0 then
            (case fitness_values fitness cat roll population of
               Inl e \<Rightarrow> Inl e
             | Inr fv \<Rightarrow> (case best_index srt fv of Inl e \<Rightarrow> Inl e | Inr _ \<Rightarrow> Inr ()))
          else Inr ())"

text \<open>\<^verbatim>\<open>for i in range(max_iter)\<close>, with \<open>todo\<close> passes left and \<open>i\<close> the index of the next one.\<close>

fun generations ::
  "(rat list \<Rightarrow> nat list) \<Rightarrow> (nat \<Rightarrow> nat \<Rightarrow> child_draws) \<Rightarrow> rat \<Rightarrow> rat \<Rightarrow> biscuits_list
     \<Rightarrow> roll_defects \<Rightarrow> int option \<Rightarrow> fitness_fn \<Rightarrow> nat \<Rightarrow> nat \<Rightarrow> chromosome list
     \<Rightarrow> py_error + chromosome list"
where
  "generations srt rnd mutation_rate elite_ratio cat roll display fitness 0 i population =
     Inr population"
| "generations srt rnd mutation_rate elite_ratio cat roll display fitness (Suc todo) i population =
     (case evolve_pop srt (rnd i) population mutation_rate elite_ratio cat roll fitness of
        Inl e \<Rightarrow> Inl e
      | Inr population' \<Rightarrow>
          (case report srt display (Suc i) population' cat roll fitness of
             Inl e \<Rightarrow> Inl e
           | Inr _ \<Rightarrow>
               generations srt rnd mutation_rate elite_ratio cat roll display fitness todo (Suc i)
                 population'))"

definition genetic_algorithm ::
  "(rat list \<Rightarrow> nat list) \<Rightarrow> ga_draws \<Rightarrow> int \<Rightarrow> rat \<Rightarrow> rat \<Rightarrow> biscuits_list \<Rightarrow> roll_defects
     \<Rightarrow> int \<Rightarrow> int \<Rightarrow> int option \<Rightarrow> fitness_fn \<Rightarrow> chromosome list option \<Rightarrow> string
     \<Rightarrow> py_error + chromosome list"
where
  "genetic_algorithm srt rnd pop_size mutation_rate elite_ratio cat roll roll_size max_iter
      display fitness population rtype =
     (case (case population of
              None \<Rightarrow> init_population (init_gene rnd) pop_size roll_size
            | Some p \<Rightarrow> Inr p) of
        Inl e \<Rightarrow> Inl e
      | Inr population0 \<Rightarrow>
          (case generations srt (gen_draws rnd) mutation_rate elite_ratio cat roll display
                  fitness (nat max_iter) 0 population0 of
             Inl e \<Rightarrow> Inl e
           | Inr final \<Rightarrow>
               if rtype \<noteq> ''population'' then
                 (case fitness_values fitness cat roll final of
                    Inl e \<Rightarrow> Inl e
                  | Inr fv \<Rightarrow>
                      (case best_index srt fv of
                         Inl e \<Rightarrow> Inl e
                       | Inr best \<Rightarrow> Inr [final ! best]))
               else Inr final))"

section \<open>Concrete inputs\<close>

text \<open>A sorting function numpy's contract allows: the stable one.\<close>

definition argsort_stable :: "rat list \<Rightarrow> nat list" where
  "argsort_stable vals = sort_key (\<lambda>i. vals ! i) [0..<length vals]"

text \<open>A \<^verbatim>\<open>pow\<close> that returns the correctly rounded square.\<close>

definition square_rounded :: "rat \<Rightarrow> rat" where
  "square_rounded x = round_double (x * x)"

text \<open>A defect table of ten positions without any defect, as the notebook builds it.\<close>

definition roll_zero10 :: roll_defects where
  "roll_zero10 =
     (\<lambda>pos. if 0 \<le> pos \<and> pos < 10 then Some [(''a'', 0), (''b'', 0), (''c'', 0)] else None)"

text \<open>The same strip with an empty defect dict at every position.\<close>

definition roll_no_entries10 :: roll_defects where
  "roll_no_entries10 = (\<lambda>pos. if 0 \<le> pos \<and> pos < 10 then Some [] else None)"

text \<open>
  The catalog of the end-to-end scenario: the empty type with an empty threshold dict, type
  \<open>0\<close> with a threshold for class \<open>a\<close> only.
\<close>

definition catalog_scenario :: biscuits_list where
  "catalog_scenario =
     [- 1 \<mapsto> \<lparr>b_value = - 1, b_size = 1, b_threshold = Map.empty\<rparr>,
      0 \<mapsto> \<lparr>b_value = 3, b_size = 4, b_threshold = [''a'' \<mapsto> 9]\<rparr>]"

text \<open>The same catalog with a threshold for each of the classes \<open>a\<close>, \<open>b\<close> and \<open>c\<close>.\<close>

definition threshold_abc :: threshold where
  "threshold_abc = [''a'' \<mapsto> 9, ''b'' \<mapsto> 9, ''c'' \<mapsto> 9]"

definition catalog_abc :: biscuits_list where
  "catalog_abc =
     [- 1 \<mapsto> \<lparr>b_value = - 1, b_size = 1, b_threshold = threshold_abc\<rparr>,
      0 \<mapsto> \<lparr>b_value = 3, b_size = 4, b_threshold = threshold_abc\<rparr>]"

text \<open>The catalog of the notebook.\<close>

definition catalog_notebook :: biscuits_list where
  "catalog_notebook =
     [- 1 \<mapsto> \<lparr>b_value = - 1, b_size = 1, b_threshold = [''a'' \<mapsto> 9, ''b'' \<mapsto> 9, ''c'' \<mapsto> 9]\<rparr>,
      0 \<mapsto> \<lparr>b_value = 3, b_size = 4, b_threshold = [''a'' \<mapsto> 4, ''b'' \<mapsto> 2, ''c'' \<mapsto> 3]\<rparr>,
      1 \<mapsto> \<lparr>b_value = 12, b_size = 8, b_threshold = [''a'' \<mapsto> 5, ''b'' \<mapsto> 4, ''c'' \<mapsto> 4]\<rparr>,
      2 \<mapsto> \<lparr>b_value = 1, b_size = 2, b_threshold = [''a'' \<mapsto> 1, ''b'' \<mapsto> 2, ''c'' \<mapsto> 1]\<rparr>,
      3 \<mapsto> \<lparr>b_value = 8, b_size = 5, b_threshold = [''a'' \<mapsto> 4, ''b'' \<mapsto> 2, ''c'' \<mapsto> 3]\<rparr>]"

text \<open>
  Three chromosomes of length four; under the notebook's catalog and no defects their
  strict scores are \<open>-1\<close>, \<open>3\<close> and \<open>-4\<close>.
\<close>

definition population3 :: "chromosome list" where
  "population3 = [[2, 2, - 1, - 1], [0, 0, 0, 0], [- 1, - 1, - 1, - 1]]"

text \<open>
  One possible outcome of the random draws, the same for every child: the parents are the
  individuals \<open>2\<close> and \<open>0\<close>, the breakpoints \<open>0\<close>, \<open>1\<close> and \<open>2\<close>, every coin flip is \<open>0\<close> (the
  first parent), every mutation draw is \<open>1/2\<close>.
\<close>

definition draws_fixed :: "nat \<Rightarrow> child_draws" where
  "draws_fixed k =
     \<lparr>parents_indices = (2, 0), break_points = (0, 1, 2), coin = (\<lambda>i. 0),
      mut_u = (\<lambda>g. 1 / 2), mut_int = (\<lambda>g. 0)\<rparr>"

text \<open>Draws for a whole run: every initial gene is \<open>-1\<close>, every child uses \<open>draws_fixed\<close>.\<close>

definition ga_draws_fixed :: ga_draws where
  "ga_draws_fixed = \<lparr>init_gene = (\<lambda>k g. - 1), gen_draws = (\<lambda>i. draws_fixed)\<rparr>"




section \<open>Vocabulary for the properties of the evolver\<close>

text \<open>
  The double \<^verbatim>\<open>len(population) * elite_ratio\<close>. The code computes the product with the
  negated length; rounding is symmetric, so that product is the negation of this one.
\<close>

definition elite_product :: "nat \<Rightarrow> rat \<Rightarrow> rat" where
  "elite_product n elite_ratio = float_mul (of_nat n) elite_ratio"

section \<open>Vocabulary for the properties of the defect check\<close>

text \<open>
  These functions are not in the notebook; they name what \<^verbatim>\<open>respect_defects\<close> computes, so
  that its behaviour can be stated: the count of one class at one position, the sum of a
  class over the range \<open>[start, end)\<close>, whether a position holds only the classes \<open>a\<close>, \<open>b\<close>
  and \<open>c\<close>, whether every position of a range is in the table and holds only those, and the
  accumulator dict \<^verbatim>\<open>{"a": x, "b": y, "c": z}\<close>.
\<close>

definition class_count :: "string \<Rightarrow> pos_defects \<Rightarrow> int" where
  "class_count k d = sum_list (map snd (filter (\<lambda>e. fst e = k) d))"

definition class_total :: "string \<Rightarrow> roll_defects \<Rightarrow> int \<Rightarrow> int \<Rightarrow> int" where
  "class_total k roll start end =
     sum_list (map (\<lambda>pos. case roll pos of None \<Rightarrow> 0 | Some d \<Rightarrow> class_count k d) [start..end - 1])"

definition known_classes :: "pos_defects \<Rightarrow> bool" where
  "known_classes d = list_all (\<lambda>e. fst e = ''a'' \<or> fst e = ''b'' \<or> fst e = ''c'') d"

definition range_well_formed :: "roll_defects \<Rightarrow> int \<Rightarrow> int \<Rightarrow> bool" where
  "range_well_formed roll start end =
     list_all (\<lambda>pos. case roll pos of None \<Rightarrow> False | Some d \<Rightarrow> known_classes d) [start..end - 1]"

definition counts_abc :: "int \<Rightarrow> int \<Rightarrow> int \<Rightarrow> (string \<rightharpoonup> int)" where
  "counts_abc x y z = [''a'' \<mapsto> x, ''b'' \<mapsto> y, ''c'' \<mapsto> z]"

text \<open>A chromosome whose genes are identifiers the random sources produce (\<open>-1\<close> to \<open>3\<close>).\<close>

definition catalog_genes :: "chromosome \<Rightarrow> bool" where
  "catalog_genes c = list_all (\<lambda>gene. - 1 \<le> gene \<and> gene \<le> 3) c"

declare slice_scan.simps [simp del]
declare slice_passes.simps [simp del]

section \<open>Properties of the rounding to doubles\<close>

text \<open>Powers of two, and the exponent \<open>floor_log2\<close> of a positive number.\<close>

lemma two_pow_powi: "two_pow e = 2 powi e"
proof (cases "0 \<le> e")
  case True
  then show ?thesis by (simp add: two_pow_def power_int_def)
next
  case False
  then show ?thesis by (simp add: two_pow_def power_int_def power_one_over)
qed

lemma two_pow_pos: "0 < two_pow e"
  by (simp add: two_pow_powi)

lemma two_pow_add: "two_pow (a + b) = two_pow a * two_pow b"
  by (simp add: two_pow_powi power_int_add)

lemma two_pow_mono: "a \<le> b \<Longrightarrow> two_pow a \<le> two_pow b"
  by (simp add: two_pow_powi power_int_increasing)

lemma two_pow_strict_mono: "a < b \<Longrightarrow> two_pow a < two_pow b"
  by (simp add: two_pow_powi power_int_strict_increasing)

lemma two_pow_nat: "two_pow (int n) = 2 ^ n"
  by (simp add: two_pow_def)

lemma round_half_even_nonneg: "0 \<le> q \<Longrightarrow> 0 \<le> round_half_even q"
  by (auto simp: round_half_even_def Let_def)


lemma round_half_even_int: "round_half_even (of_int n) = n"
  by (simp add: round_half_even_def Let_def)

lemma round_double_minus: "round_double (- x) = - round_double x"
  by (simp add: round_double_def Let_def)

lemma round_double_nonneg: "0 \<le> x \<Longrightarrow> 0 \<le> round_double x"
  by (auto simp: round_double_def Let_def intro!: mult_nonneg_nonneg round_half_even_nonneg
      divide_nonneg_pos two_pow_pos less_imp_le [OF two_pow_pos])

lemma floor_log2_bounds:
  assumes "0 < x"
  shows "two_pow (floor_log2 x) \<le> x" and "x < two_pow (floor_log2 x + 1)"
proof -
  obtain p q where pq: "quotient_of x = (p, q)" by (cases "quotient_of x")
  have q: "0 < q" using pq by (rule quotient_of_denom_pos)
  have x: "x = of_int p / of_int q" using pq by (rule quotient_of_div)
  have p: "0 < p" using assms q unfolding x by (simp add: zero_less_divide_iff)
  define d where "d = bitlen p - bitlen q"
  have bp: "1 \<le> bitlen p" and bq: "1 \<le> bitlen q"
    using p q by (simp_all add: bitlen_alt_def)
  have "(2::int) ^ nat (bitlen p - 1) \<le> p" "p < 2 ^ nat (bitlen p)"
    "(2::int) ^ nat (bitlen q - 1) \<le> q" "q < 2 ^ nat (bitlen q)"
    using bitlen_bounds [OF p] bitlen_bounds [OF q] by simp_all
  then have "(of_int (2 ^ nat (bitlen p - 1)) :: rat) \<le> of_int p"
    "(of_int p :: rat) < of_int (2 ^ nat (bitlen p))"
    "(of_int (2 ^ nat (bitlen q - 1)) :: rat) \<le> of_int q"
    "(of_int q :: rat) < of_int (2 ^ nat (bitlen q))"
    by (simp_all only: of_int_le_iff of_int_less_iff)
  then have b: "two_pow (bitlen p - 1) \<le> of_int p" "of_int p < two_pow (bitlen p)"
    "two_pow (bitlen q - 1) \<le> of_int q" "of_int q < two_pow (bitlen q)"
    using bp bq by (simp_all add: two_pow_def)
  have qpos: "(0::rat) < of_int q" using q by simp
  have up: "x < two_pow (d + 1)"
  proof -
    have "x * of_int q = of_int p" using qpos by (simp add: x)
    also have "\<dots> < two_pow (bitlen p)" by (fact b(2))
    also have "\<dots> = two_pow (d + 1) * two_pow (bitlen q - 1)"
      by (simp add: d_def two_pow_add [symmetric])
    also have "\<dots> \<le> two_pow (d + 1) * of_int q"
      using b(3) two_pow_pos [of "d + 1"] by simp
    finally show ?thesis using qpos by simp
  qed
  have low: "two_pow (d - 1) < x"
  proof -
    have "two_pow (d - 1) * of_int q < two_pow (d - 1) * two_pow (bitlen q)"
      using b(4) two_pow_pos [of "d - 1"] by simp
    also have "\<dots> = two_pow (bitlen p - 1)" by (simp add: d_def two_pow_add [symmetric])
    also have "\<dots> \<le> of_int p" by (fact b(1))
    also have "\<dots> = x * of_int q" using qpos by (simp add: x)
    finally show ?thesis using qpos by simp
  qed
  have fl: "floor_log2 x = (if two_pow d \<le> x then d else d - 1)"
    by (simp add: floor_log2_def pq d_def Let_def)
  show "two_pow (floor_log2 x) \<le> x" using low by (auto simp: fl)
  show "x < two_pow (floor_log2 x + 1)" using up by (auto simp: fl)
qed

lemma floor_log2_unique:
  assumes "two_pow k \<le> x" and "x < two_pow (k + 1)"
  shows "floor_log2 x = k"
proof -
  have pos: "0 < x" using assms(1) two_pow_pos [of k] by simp
  note b = floor_log2_bounds [OF pos]
  have "two_pow k < two_pow (floor_log2 x + 1)" using assms(1) b(2) by simp
  then have "k < floor_log2 x + 1"
    using two_pow_mono [of "floor_log2 x + 1" k] by (cases "k < floor_log2 x + 1") auto
  moreover have "two_pow (floor_log2 x) < two_pow (k + 1)" using assms(2) b(1) by simp
  then have "floor_log2 x < k + 1"
    using two_pow_mono [of "k + 1" "floor_log2 x"] by (cases "floor_log2 x < k + 1") auto
  ultimately show ?thesis by simp
qed


text \<open>A positive double is at least the least positive double, \<open>2 ^ (- 1074)\<close>.\<close>
lemma round_double_least:
  assumes "0 < round_double x"
  shows "two_pow (- 1074) \<le> round_double x"
proof -
  have nz: "x \<noteq> 0" using assms by (auto simp: round_double_def)
  define e where "e = max (floor_log2 \<bar>x\<bar> - 52) (- 1074)"
  define n where "n = round_half_even (\<bar>x\<bar> / two_pow e)"
  have rd: "round_double x = sgn x * of_int n * two_pow e"
    using nz by (simp add: round_double_def Let_def e_def n_def)
  have n0: "0 \<le> n" unfolding n_def
    by (rule round_half_even_nonneg) (simp add: less_imp_le [OF two_pow_pos])
  have "0 < sgn x * of_int n" using assms two_pow_pos [of e] unfolding rd
    by (simp add: zero_less_mult_iff)
  then have "sgn x = 1 \<and> 1 \<le> n" using n0 nz
    by (cases "0 < x") (auto simp: zero_less_mult_iff sgn_if split: if_splits)
  then have "round_double x = of_int n * two_pow e" "(1::rat) \<le> of_int n" unfolding rd by simp_all
  moreover have "two_pow (- 1074) \<le> two_pow e" by (rule two_pow_mono) (simp add: e_def)
  ultimately show ?thesis
    using mult_mono [of 1 "of_int n" "two_pow (- 1074)" "two_pow e"]
      less_imp_le [OF two_pow_pos [of "- 1074"]] by simp
qed

text \<open>
  A double is \<open>n * 2 ^ e\<close> with a significand \<open>n\<close> of at most \<open>53\<close> bits, normalised unless
  \<open>e\<close> is the least exponent; the rounding returns such a number and leaves such a number
  as it is.
\<close>

lemma round_half_even_le:
  assumes "q \<le> of_int m"
  shows "round_half_even q \<le> m"
proof -
  have f: "\<lfloor>q\<rfloor> \<le> m" using assms floor_mono [of q "of_int m"] by simp
  show ?thesis
  proof (cases "\<lfloor>q\<rfloor> = m")
    case True
    then have "q = of_int m" using assms by (metis of_int_floor_le order_antisym)
    then show ?thesis by (simp add: round_half_even_int)
  next
    case False
    then have "\<lfloor>q\<rfloor> + 1 \<le> m" using f by simp
    then show ?thesis by (auto simp: round_half_even_def Let_def)
  qed
qed

lemma round_half_even_ge:
  assumes "of_int m \<le> q"
  shows "m \<le> round_half_even q"
proof -
  have "m \<le> \<lfloor>q\<rfloor>" using assms by (simp add: le_floor_iff)
  then show ?thesis by (auto simp: round_half_even_def Let_def)
qed

lemma round_double_repr:
  assumes "0 < x"
  shows "\<exists>n e. round_double x = of_int n * two_pow e \<and> 0 \<le> n \<and> n \<le> 2 ^ 53 \<and> - 1074 \<le> e \<and>
           (e = - 1074 \<or> 2 ^ 52 \<le> n)"
proof -
  define e where "e = max (floor_log2 x - 52) (- 1074)"
  define n where "n = round_half_even (x / two_pow e)"
  have rd: "round_double x = of_int n * two_pow e"
    using assms by (simp add: round_double_def Let_def e_def n_def)
  have n0: "0 \<le> n" unfolding n_def
    using assms by (intro round_half_even_nonneg) (simp add: less_imp_le [OF two_pow_pos])
  have "x < two_pow (floor_log2 x + 1)" using floor_log2_bounds(2) [OF assms] .
  also have "\<dots> \<le> two_pow (e + 53)" by (rule two_pow_mono) (simp add: e_def)
  also have "\<dots> = two_pow 53 * two_pow e" by (simp add: two_pow_add mult.commute)
  finally have "x / two_pow e \<le> two_pow 53" using two_pow_pos [of e] by (simp add: pos_divide_le_eq)
  then have "x / two_pow e \<le> of_int (2 ^ 53)" by (simp add: two_pow_def)
  then have n1: "n \<le> 2 ^ 53" unfolding n_def by (rule round_half_even_le)
  have n2: "e = - 1074 \<or> 2 ^ 52 \<le> n"
  proof (cases "e = - 1074")
    case False
    then have e: "e = floor_log2 x - 52" by (simp add: e_def max_def split: if_splits)
    have "two_pow 52 * two_pow e = two_pow (floor_log2 x)" by (simp add: e two_pow_add [symmetric])
    also have "\<dots> \<le> x" using floor_log2_bounds(1) [OF assms] .
    finally have "two_pow 52 \<le> x / two_pow e" using two_pow_pos [of e] by (simp add: pos_le_divide_eq)
    then have "of_int (2 ^ 52) \<le> x / two_pow e" by (simp add: two_pow_def)
    then show ?thesis unfolding n_def using round_half_even_ge by blast
  qed simp
  show ?thesis using rd n0 n1 n2 by (intro exI [of _ n] exI [of _ e]) (simp add: e_def)
qed

lemma round_double_of_repr:
  assumes "0 < n" and "n \<le> 2 ^ 53" and "- 1074 \<le> e" and "e = - 1074 \<or> 2 ^ 52 \<le> n"
  shows "round_double (of_int n * two_pow e) = of_int n * two_pow e"
proof -
  define y :: rat where "y = of_int n * two_pow e"
  have ypos: "0 < y" using assms(1) two_pow_pos [of e] by (simp add: y_def)
  have rd: "round_double y =
      of_int (round_half_even (y / two_pow (max (floor_log2 y - 52) (- 1074)))) *
        two_pow (max (floor_log2 y - 52) (- 1074))"
    using ypos by (simp add: round_double_def Let_def)
  have div: "y / two_pow e = of_int n" using two_pow_pos [of e] by (simp add: y_def)
  consider "n = 2 ^ 53" | "2 ^ 52 \<le> n" "n < 2 ^ 53" | "n < 2 ^ 52"
    using assms(2) by linarith
  then have "round_double y = y"
  proof cases
    case 1
    have t: "(of_int (2 ^ 53) :: rat) = two_pow 53" "(of_int (2 ^ 52) :: rat) = two_pow 52"
      by (simp_all add: two_pow_def)
    have y: "y = two_pow (e + 53)"
      unfolding y_def 1 t by (simp add: two_pow_add [symmetric] add.commute)
    have "floor_log2 y = e + 53"
      unfolding y by (rule floor_log2_unique) (simp_all add: two_pow_strict_mono)
    then have m: "max (floor_log2 y - 52) (- 1074) = e + 1" using assms(3) by simp
    have y2: "y = of_int (2 ^ 52) * two_pow (e + 1)"
    proof -
      have "52 + (e + 1) = e + 53" by simp
      then show ?thesis unfolding y t two_pow_add [symmetric] by (simp only:)
    qed
    have "y / two_pow (e + 1) = of_int (2 ^ 52)"
      using two_pow_pos [of "e + 1"] by (simp only: y2) simp
    then show ?thesis
      unfolding rd m by (simp only: round_half_even_int y2 [symmetric])
  next
    case 2
    have "(of_int (2 ^ 52) :: rat) \<le> of_int n" "(of_int n :: rat) < of_int (2 ^ 53)"
      using 2 by (simp_all only: of_int_le_iff of_int_less_iff)
    then have b: "two_pow 52 \<le> of_int n" "of_int n < two_pow 53" by (simp_all add: two_pow_def)
    have "two_pow (e + 52) \<le> y" "y < two_pow (e + 52 + 1)"
      using b two_pow_pos [of e] by (simp_all add: y_def two_pow_add mult.commute)
    then have "floor_log2 y = e + 52" by (rule floor_log2_unique)
    then have m: "max (floor_log2 y - 52) (- 1074) = e" using assms(3) by simp
    show ?thesis unfolding rd m div by (simp only: round_half_even_int y_def)
  next
    case 3
    then have e: "e = - 1074" using assms(4) by simp
    have "(of_int n :: rat) < of_int (2 ^ 52)" using 3 by (simp only: of_int_less_iff)
    then have "of_int n < two_pow 52" by (simp add: two_pow_def)
    then have "y < two_pow 52 * two_pow e" using two_pow_pos [of e] by (simp add: y_def)
    also have "\<dots> = two_pow (- 1022)" by (simp add: e two_pow_add [symmetric])
    finally have "two_pow (floor_log2 y) < two_pow (- 1022)"
      using floor_log2_bounds(1) [OF ypos] by simp
    then have "floor_log2 y < - 1022"
      using two_pow_mono [of "- 1022" "floor_log2 y"] by (cases "floor_log2 y < - 1022") auto
    then have m: "max (floor_log2 y - 52) (- 1074) = e" by (simp add: e)
    show ?thesis unfolding rd m div by (simp only: round_half_even_int y_def)
  qed
  then show ?thesis by (simp only: y_def)
qed

lemma round_double_idem: "round_double (round_double x) = round_double x"
proof -
  have pos: "round_double (round_double x) = round_double x" if xp: "0 < x" for x
  proof -
    obtain n e where r: "round_double x = of_int n * two_pow e" "0 \<le> n" "n \<le> 2 ^ 53"
        "- 1074 \<le> e" "e = - 1074 \<or> 2 ^ 52 \<le> n"
      using round_double_repr [OF xp] by blast
    show ?thesis
    proof (cases "n = 0")
      case True
      then have z: "round_double x = 0" using r(1) by simp
      show ?thesis unfolding z by (simp add: round_double_def)
    next
      case False
      then have "0 < n" using r(2) by simp
      then show ?thesis unfolding r(1) using r(3,4,5) by (rule round_double_of_repr)
    qed
  qed
  consider "x = 0" | "0 < x" | "0 < - x" by linarith
  then show ?thesis
  proof cases
    case 1
    then show ?thesis by (simp add: round_double_def)
  next
    case 2
    then show ?thesis by (rule pos)
  next
    case 3
    then have "round_double (round_double (- x)) = round_double (- x)" by (rule pos)
    then show ?thesis by (simp add: round_double_minus)
  qed
qed

lemma round_double_zero: "round_double 0 = 0"
  by (simp add: round_double_def)

lemma two_pow_zero: "two_pow 0 = 1"
  by (simp add: two_pow_def)

lemma floor_log2_nonneg:
  assumes "1 \<le> x"
  shows "0 \<le> floor_log2 x"
proof (rule ccontr)
  assume "\<not> 0 \<le> floor_log2 x"
  then have "floor_log2 x + 1 \<le> 0" by simp
  then have "two_pow (floor_log2 x + 1) \<le> two_pow 0" by (rule two_pow_mono)
  moreover have "x < two_pow (floor_log2 x + 1)"
    using assms by (intro floor_log2_bounds(2)) simp
  ultimately show False using assms by (simp add: two_pow_zero)
qed

text \<open>In the normal range the rounding does not go below the power of two under \<open>x\<close>.\<close>

lemma round_double_ge_pow:
  assumes "0 < x" and "- 1022 \<le> floor_log2 x"
  shows "two_pow (floor_log2 x) \<le> round_double x"
proof -
  define e where "e = floor_log2 x - 52"
  have m: "max (floor_log2 x - 52) (- 1074) = e" using assms(2) by (simp add: e_def)
  have rd: "round_double x = of_int (round_half_even (x / two_pow e)) * two_pow e"
    using assms(1) by (simp add: round_double_def Let_def m)
  have "two_pow 52 * two_pow e = two_pow (floor_log2 x)"
    by (simp add: e_def two_pow_add [symmetric])
  also have "\<dots> \<le> x" using floor_log2_bounds(1) [OF assms(1)] .
  finally have "two_pow 52 \<le> x / two_pow e" using two_pow_pos [of e] by (simp add: pos_le_divide_eq)
  then have "of_int (2 ^ 52) \<le> x / two_pow e" by (simp add: two_pow_def)
  then have "2 ^ 52 \<le> round_half_even (x / two_pow e)" by (rule round_half_even_ge)
  then have "(of_int (2 ^ 52) :: rat) \<le> of_int (round_half_even (x / two_pow e))"
    by (simp only: of_int_le_iff)
  then have "two_pow 52 * two_pow e \<le> of_int (round_half_even (x / two_pow e)) * two_pow e"
    using two_pow_pos [of e] by (simp add: two_pow_def)
  then show ?thesis unfolding rd by (simp add: e_def two_pow_add [symmetric])
qed

text \<open>The rounding does not cross an integer of magnitude up to \<open>2 ^ 53\<close>.\<close>

lemma round_double_ge_int:
  assumes "of_int m \<le> x" and "0 < m" and "m \<le> 2 ^ 53"
  shows "of_int m \<le> round_double x"
proof -
  have "(1 :: rat) \<le> of_int m" using assms(2) by simp
  then have x1: "1 \<le> x" using assms(1) by (rule order_trans)
  then have xp: "0 < x" by simp
  have k0: "0 \<le> floor_log2 x" using x1 by (rule floor_log2_nonneg)
  define e where "e = floor_log2 x - 52"
  have m: "max (floor_log2 x - 52) (- 1074) = e" using k0 by (simp add: e_def)
  have rd: "round_double x = of_int (round_half_even (x / two_pow e)) * two_pow e"
    using xp by (simp add: round_double_def Let_def m)
  show ?thesis
  proof (cases "e \<le> 0")
    case True
    have tp: "two_pow e * 2 ^ nat (- e) = 1"
      using True two_pow_add [of e "- e"] by (simp add: two_pow_zero two_pow_nat [symmetric])
    have "of_int m * 2 ^ nat (- e) \<le> x * 2 ^ nat (- e)"
      using assms(1) by (intro mult_right_mono) simp_all
    also have "x * 2 ^ nat (- e) = x / two_pow e"
      using tp two_pow_pos [of e] by (simp add: field_simps)
    finally have "of_int (m * 2 ^ nat (- e)) \<le> x / two_pow e" by simp
    then have "m * 2 ^ nat (- e) \<le> round_half_even (x / two_pow e)" by (rule round_half_even_ge)
    then have "(of_int (m * 2 ^ nat (- e)) :: rat) \<le> of_int (round_half_even (x / two_pow e))"
      by (simp only: of_int_le_iff)
    then have le: "of_int (m * 2 ^ nat (- e)) * two_pow e
                 \<le> of_int (round_half_even (x / two_pow e)) * two_pow e"
      using two_pow_pos [of e] by (intro mult_right_mono) simp_all
    have "(of_int m :: rat) = of_int m * (two_pow e * 2 ^ nat (- e))" by (simp only: tp mult_1_right)
    also have "\<dots> = of_int (m * 2 ^ nat (- e)) * two_pow e" by simp
    also note le
    finally show ?thesis unfolding rd .
  next
    case False
    then have "53 \<le> floor_log2 x" by (simp add: e_def)
    then have "two_pow 53 \<le> two_pow (floor_log2 x)" by (rule two_pow_mono)
    also have "\<dots> \<le> round_double x" using xp k0 by (intro round_double_ge_pow) simp_all
    finally have "of_int (2 ^ 53) \<le> round_double x" by (simp add: two_pow_def)
    moreover have "(of_int m :: rat) \<le> of_int (2 ^ 53)" using assms(3) by (simp only: of_int_le_iff)
    ultimately show ?thesis by (rule order_trans [rotated])
  qed
qed

lemma round_double_le_int:
  assumes "x \<le> of_int m" and "0 < x" and "m \<le> 2 ^ 53"
  shows "round_double x \<le> of_int m"
proof -
  show ?thesis
  proof (cases "floor_log2 x - 52 \<le> 0")
    case True
    define e where "e = max (floor_log2 x - 52) (- 1074)"
    have e0: "e \<le> 0" using True by (simp add: e_def)
    have rd: "round_double x = of_int (round_half_even (x / two_pow e)) * two_pow e"
      using assms(2) by (simp add: round_double_def Let_def e_def)
    have tp: "two_pow e * 2 ^ nat (- e) = 1"
      using e0 two_pow_add [of e "- e"] by (simp add: two_pow_zero two_pow_nat [symmetric])
    have "x * 2 ^ nat (- e) \<le> of_int m * 2 ^ nat (- e)"
      using assms(1) by (intro mult_right_mono) simp_all
    moreover have "x * 2 ^ nat (- e) = x / two_pow e"
      using tp two_pow_pos [of e] by (simp add: field_simps)
    ultimately have "x / two_pow e \<le> of_int (m * 2 ^ nat (- e))" by simp
    then have "round_half_even (x / two_pow e) \<le> m * 2 ^ nat (- e)" by (rule round_half_even_le)
    then have "(of_int (round_half_even (x / two_pow e)) :: rat) \<le> of_int (m * 2 ^ nat (- e))"
      by (simp only: of_int_le_iff)
    then have "of_int (round_half_even (x / two_pow e)) * two_pow e
                 \<le> of_int (m * 2 ^ nat (- e)) * two_pow e"
      using two_pow_pos [of e] by (intro mult_right_mono) simp_all
    also have "\<dots> = of_int m * (two_pow e * 2 ^ nat (- e))" by simp
    also have "\<dots> = of_int m" by (simp only: tp mult_1_right)
    finally show ?thesis unfolding rd .
  next
    case False
    then have "53 \<le> floor_log2 x" by simp
    then have "two_pow 53 \<le> two_pow (floor_log2 x)" by (rule two_pow_mono)
    also have "\<dots> \<le> x" using floor_log2_bounds(1) [OF assms(2)] .
    finally have "of_int (2 ^ 53) \<le> x" by (simp add: two_pow_def)
    then have "(of_int (2 ^ 53) :: rat) \<le> of_int m" using assms(1) by (rule order_trans)
    then have "2 ^ 53 \<le> m" by (simp only: of_int_le_iff)
    then have "m = 2 ^ 53" using assms(3) by simp
    then have x: "x = two_pow 53" using assms(1) \<open>of_int (2 ^ 53) \<le> x\<close> by (simp add: two_pow_def)
    have "round_double (of_int (2 ^ 52) * two_pow 1) = of_int (2 ^ 52) * two_pow 1"
      by (rule round_double_of_repr) simp_all
    then have "round_double x = x" unfolding x by (simp add: two_pow_def)
    then show ?thesis using assms(1) by simp
  qed
qed

text \<open>The integers of magnitude up to \<open>2 ^ 53\<close> are doubles.\<close>

lemma round_double_of_int:
  assumes "\<bar>n\<bar> \<le> 2 ^ 53"
  shows "round_double (of_int n) = of_int n"
proof -
  have pos: "round_double (of_int m) = of_int m" if "0 < m" "m \<le> 2 ^ 53" for m
  proof (rule order_antisym)
    show "round_double (of_int m) \<le> of_int m"
      using that by (intro round_double_le_int) simp_all
    show "of_int m \<le> round_double (of_int m)"
      using that by (intro round_double_ge_int) simp_all
  qed
  consider "n = 0" | "0 < n" | "0 < - n" by linarith
  then show ?thesis
  proof cases
    case 1
    then show ?thesis by (simp add: round_double_zero)
  next
    case 2
    then show ?thesis using assms by (intro pos) simp_all
  next
    case 3
    then have "round_double (of_int (- n)) = of_int (- n)" using assms by (intro pos) simp_all
    then show ?thesis by (simp add: round_double_minus)
  qed
qed

lemma round_double_of_nat:
  assumes "n \<le> 2 ^ 53"
  shows "round_double (of_nat n) = of_nat n"
proof -
  have "int n \<le> int (2 ^ 53)" using assms by (simp only: of_nat_le_iff)
  then have "\<bar>int n\<bar> \<le> 2 ^ 53" by simp
  then show ?thesis using round_double_of_int [of "int n"] by simp
qed

lemma round_double_ge_one: "1 \<le> x \<Longrightarrow> 1 \<le> round_double x"
  using round_double_ge_int [of 1 x] by simp

text \<open>On integers of magnitude up to \<open>2 ^ 53\<close> the rounded sum and difference are exact.\<close>

lemma float_add_of_int:
  assumes "\<bar>a\<bar> \<le> 2 ^ 53" and "\<bar>b\<bar> \<le> 2 ^ 53" and "\<bar>a + b\<bar> \<le> 2 ^ 53"
  shows "float_add (of_int a) (of_int b) = of_int (a + b)"
proof -
  have "float_add (of_int a) (of_int b) = round_double (of_int (a + b))"
    by (simp add: float_add_def to_float_def round_double_of_int [OF assms(1)]
        round_double_of_int [OF assms(2)])
  then show ?thesis by (simp only: round_double_of_int [OF assms(3)])
qed

lemma float_sub_of_int:
  assumes "\<bar>a\<bar> \<le> 2 ^ 53" and "\<bar>b\<bar> \<le> 2 ^ 53" and "\<bar>a - b\<bar> \<le> 2 ^ 53"
  shows "float_sub (of_int a) (of_int b) = of_int (a - b)"
proof -
  have "float_sub (of_int a) (of_int b) = round_double (of_int (a - b))"
    by (simp add: float_sub_def to_float_def round_double_of_int [OF assms(1)]
        round_double_of_int [OF assms(2)])
  then show ?thesis by (simp only: round_double_of_int [OF assms(3)])
qed

text \<open>The overflow test: a magnitude of \<open>2 ^ 1024\<close> or more.\<close>

lemma overflow_iff: "overflow x \<longleftrightarrow> two_pow 1024 \<le> \<bar>x\<bar>"
proof (cases "x = 0")
  case True
  then show ?thesis using two_pow_pos [of 1024] by (simp add: overflow_def)
next
  case False
  then have pos: "0 < \<bar>x\<bar>" by simp
  note b = floor_log2_bounds [OF pos]
  show ?thesis
  proof
    assume "overflow x"
    then have "1024 \<le> floor_log2 \<bar>x\<bar>" by (simp add: overflow_def)
    then have "two_pow 1024 \<le> two_pow (floor_log2 \<bar>x\<bar>)" by (rule two_pow_mono)
    then show "two_pow 1024 \<le> \<bar>x\<bar>" using b(1) by (rule order_trans)
  next
    assume "two_pow 1024 \<le> \<bar>x\<bar>"
    then have lt: "two_pow 1024 < two_pow (floor_log2 \<bar>x\<bar> + 1)" using b(2) by (rule le_less_trans)
    have "1024 < floor_log2 \<bar>x\<bar> + 1"
    proof (rule ccontr)
      assume "\<not> 1024 < floor_log2 \<bar>x\<bar> + 1"
      then have "floor_log2 \<bar>x\<bar> + 1 \<le> 1024" by simp
      then have "two_pow (floor_log2 \<bar>x\<bar> + 1) \<le> two_pow 1024" by (rule two_pow_mono)
      then show False using lt by simp
    qed
    then show "overflow x" using False by (simp add: overflow_def)
  qed
qed

lemma overflow_zero: "\<not> overflow 0"
  by (simp add: overflow_def)

lemma floor_log2_le:
  assumes "0 < x" and "x \<le> two_pow k"
  shows "floor_log2 x \<le> k"
proof (rule ccontr)
  assume "\<not> floor_log2 x \<le> k"
  then have "k < floor_log2 x" by simp
  then have "two_pow k < two_pow (floor_log2 x)" by (rule two_pow_strict_mono)
  also have "\<dots> \<le> x" using floor_log2_bounds(1) [OF assms(1)] .
  finally show False using assms(2) by simp
qed

text \<open>The rounding does not cross a power of two.\<close>

lemma round_double_le_pow:
  assumes "0 < x" and "x \<le> two_pow k" and "- 1074 \<le> k"
  shows "round_double x \<le> two_pow k"
proof -
  define e where "e = max (floor_log2 x - 52) (- 1074)"
  have rd: "round_double x = of_int (round_half_even (x / two_pow e)) * two_pow e"
    using assms(1) by (simp add: round_double_def Let_def e_def)
  have ek: "e \<le> k" using floor_log2_le [OF assms(1,2)] assms(3) by (simp add: e_def)
  define n where "n = nat (k - e)"
  have kn: "k = int n + e" using ek by (simp add: n_def)
  have split: "two_pow k = 2 ^ n * two_pow e"
    unfolding kn two_pow_add two_pow_nat ..
  have "x / two_pow e \<le> 2 ^ n"
    using assms(2) two_pow_pos [of e] unfolding split by (simp add: pos_divide_le_eq)
  then have "x / two_pow e \<le> of_int (2 ^ n)" by simp
  then have "round_half_even (x / two_pow e) \<le> 2 ^ n" by (rule round_half_even_le)
  then have "(of_int (round_half_even (x / two_pow e)) :: rat) \<le> of_int (2 ^ n)"
    by (simp only: of_int_le_iff)
  then have "of_int (round_half_even (x / two_pow e)) * two_pow e \<le> of_int (2 ^ n) * two_pow e"
    using two_pow_pos [of e] by (intro mult_right_mono) simp_all
  also have "\<dots> = two_pow k" unfolding split by simp
  finally show ?thesis unfolding rd .
qed

lemma round_double_abs_le_pow:
  assumes "\<bar>x\<bar> \<le> two_pow k" and "- 1074 \<le> k"
  shows "\<bar>round_double x\<bar> \<le> two_pow k"
proof -
  consider "x = 0" | "0 < x" | "0 < - x" by linarith
  then show ?thesis
  proof cases
    case 1
    then show ?thesis using two_pow_pos [of k] by (simp add: round_double_zero)
  next
    case 2
    then have "round_double x \<le> two_pow k" using assms by (intro round_double_le_pow) simp_all
    moreover have "0 \<le> round_double x" using 2 by (intro round_double_nonneg) simp
    ultimately show ?thesis by simp
  next
    case 3
    then have "round_double (- x) \<le> two_pow k" using assms by (intro round_double_le_pow) simp_all
    moreover have "0 \<le> round_double (- x)" using 3 by (intro round_double_nonneg) simp
    ultimately show ?thesis by (simp add: round_double_minus)
  qed
qed

lemma not_overflow_le_pow:
  assumes "\<bar>x\<bar> \<le> two_pow k" and "k < 1024"
  shows "\<not> overflow x"
proof -
  have "two_pow k < two_pow 1024" using assms(2) by (rule two_pow_strict_mono)
  then show ?thesis using assms(1) by (simp add: overflow_iff)
qed

text \<open>A result of magnitude up to \<open>2 ^ (- 1075)\<close>, half the least positive double, rounds to zero.\<close>

lemma round_double_underflow:
  assumes "\<bar>y\<bar> \<le> two_pow (- 1075)"
  shows "round_double y = 0"
proof -
  have pos: "round_double x = 0" if xp: "0 < x" and le: "x \<le> two_pow (- 1075)" for x
  proof -
    have "floor_log2 x \<le> - 1075" using xp le by (rule floor_log2_le)
    then have m: "max (floor_log2 x - 52) (- 1074) = - 1074" by simp
    have rd: "round_double x = of_int (round_half_even (x / two_pow (- 1074))) * two_pow (- 1074)"
      using xp by (simp add: round_double_def Let_def m)
    have "two_pow (- 1075) = two_pow (- 1) * two_pow (- 1074)"
      by (simp add: two_pow_add [symmetric])
    then have "x / two_pow (- 1074) \<le> two_pow (- 1)"
      using le two_pow_pos [of "- 1074"] by (simp add: pos_divide_le_eq)
    moreover define q where "q = x / two_pow (- 1074)"
    ultimately have q: "q \<le> 1 / 2" by (simp add: two_pow_def)
    have q0: "0 < q" using xp two_pow_pos [of "- 1074"] by (simp add: q_def)
    have "0 \<le> q" "q < 1" using q q0 by linarith+
    then have "\<lfloor>q\<rfloor> = 0" by (simp add: floor_eq_iff)
    then have "round_half_even q = 0"
      using q by (auto simp: round_half_even_def Let_def)
    then have "round_half_even (x / two_pow (- 1074)) = 0" by (simp only: q_def)
    then show ?thesis unfolding rd by simp
  qed
  consider "y = 0" | "0 < y" | "0 < - y" by linarith
  then show ?thesis
  proof cases
    case 1
    then show ?thesis by (simp add: round_double_zero)
  next
    case 2
    then show ?thesis using assms by (intro pos) simp_all
  next
    case 3
    then have "round_double (- y) = 0" using assms by (intro pos) simp_all
    then show ?thesis by (simp add: round_double_minus)
  qed
qed

section \<open>Properties of the strict evaluator\<close>

lemma fitness_1_loop_empty_run:
  "fitness_1_loop cat roll i (replicate n (- 1)) score sz last_elem =
     Inr (if n = 0 then (score, sz) else (score - of_nat sz - of_nat n, 0))"
proof (induction n arbitrary: i score sz last_elem)
  case 0
  show ?case by simp
next
  case (Suc n)
  show ?case by (simp add: Suc.IH algebra_simps)
qed

text \<open>
  Claim C5. A chromosome of \<open>N\<close> positions that all hold the empty-type identifier \<open>-1\<close> is
  scored exactly \<open>-N\<close> by the strict evaluator, whatever the catalog and the defect table are
  (neither is consulted).
\<close>

theorem fitness_1_all_empty:
  "fitness_1 (replicate N (- 1)) cat roll = Inr (- of_nat N)"
  by (simp add: fitness_1_def fitness_1_loop_empty_run)

text \<open>
  Claim C4, as stated: in the scenario with thresholds \<open>{}\<close> and \<open>{a: 9}\<close> the strict
  evaluator returns \<open>-3\<close>. It does not: when the run of type \<open>0\<close> reaches its length,
  \<^verbatim>\<open>respect_defects\<close> looks up \<^verbatim>\<open>threshold["b"]\<close> and raises KeyError. This is so whether the
  all-zero defect table holds zero counts for \<open>a\<close>, \<open>b\<close>, \<open>c\<close> at each position or an empty dict
  at each position; a table without the positions raises KeyError at the first of them.
\<close>

theorem fitness_1_scenario_key_error:
  "fitness_1 [0, 0, 0, 0, - 1, - 1, - 1, - 1, - 1, - 1] catalog_scenario roll_zero10
     = Inl KeyError \<and>
   fitness_1 [0, 0, 0, 0, - 1, - 1, - 1, - 1, - 1, - 1] catalog_scenario roll_no_entries10
     = Inl KeyError \<and>
   fitness_1 [0, 0, 0, 0, - 1, - 1, - 1, - 1, - 1, - 1] catalog_scenario Map.empty
     = Inl KeyError"
  by (simp add: fitness_1_def respect_defects_def zero_defects_def catalog_scenario_def
      roll_zero10_def roll_no_entries10_def upto_rec1)

text \<open>
  Claim C4, amended: with a threshold \<open>9\<close> for each of the classes \<open>a\<close>, \<open>b\<close> and \<open>c\<close> in both
  catalog entries, the strict evaluator returns exactly \<open>-3\<close> on the scenario's chromosome.
\<close>

theorem fitness_1_scenario_abc:
  "fitness_1 [0, 0, 0, 0, - 1, - 1, - 1, - 1, - 1, - 1] catalog_abc roll_zero10 = Inr (- 3)"
  by (simp add: fitness_1_def respect_defects_def zero_defects_def catalog_abc_def
      threshold_abc_def roll_zero10_def upto_rec1)

section \<open>Properties of the partial-credit slice scorer\<close>

lemma float_add_zero_left: "float_add 0 (float_mul a b) = float_mul a b"
  by (simp add: float_add_def float_mul_def to_float_def round_double_zero round_double_idem)

lemma float_sub_zero_right: "float_sub (float_mul a b) 0 = float_mul a b"
  by (simp add: float_sub_def float_mul_def to_float_def round_double_zero round_double_idem)

lemma float_mul_nonneg: "0 \<le> a \<Longrightarrow> 0 \<le> b \<Longrightarrow> 0 \<le> float_mul a b"
  by (simp add: float_mul_def to_float_def round_double_nonneg)


text \<open>A finite product is a finite double: adding it to \<open>0\<close> and taking \<open>0\<close> from it return it.\<close>

lemma checked_mul_result:
  "checked_mul a b = Inr x \<Longrightarrow> x = float_mul a b \<and> \<not> overflow x"
  by (auto simp: checked_mul_def checked_def split: if_splits)


lemma checked_add_zero_left:
  assumes "checked_mul a b = Inr x"
  shows "checked_add 0 x = Inr x"
proof -
  have x: "x = float_mul a b" "\<not> overflow x" using checked_mul_result [OF assms] by blast+
  have "to_float x = x" unfolding x(1) float_mul_def to_float_def by (rule round_double_idem)
  moreover have "float_add 0 x = x" unfolding x(1) by (rule float_add_zero_left)
  ultimately show ?thesis
    using x(2) by (simp add: checked_add_def checked_def to_float_def round_double_zero overflow_zero)
qed

lemma checked_sub_zero_right:
  assumes "checked_mul a b = Inr x"
  shows "checked_sub x 0 = Inr x"
proof -
  have x: "x = float_mul a b" "\<not> overflow x" using checked_mul_result [OF assms] by blast+
  have "to_float x = x" unfolding x(1) float_mul_def to_float_def by (rule round_double_idem)
  moreover have "float_sub x 0 = x" unfolding x(1) by (rule float_sub_zero_right)
  ultimately show ?thesis
    using x(2) by (simp add: checked_sub_def checked_def to_float_def round_double_zero overflow_zero)
qed

lemma remove_each_self: "remove_each xs xs = Inr []"
  by (induction xs) simp_all

lemma slice_scan_done:
  "\<not> int j \<le> int (length un) - int ls \<Longrightarrow>
     slice_scan sq th roll R v un ls j score asg = Inr (score, asg)"
  by (subst slice_scan.simps) simp

lemma slice_scan_whole_run:
  assumes L: "1 \<le> L"
    and ok: "respect_defects th s (s + int L) roll = Inr True"
    and credit: "checked_mul (sq (true_div L R)) v = Inr x"
    and total: "checked_add score x = Inr score'"
  shows "slice_scan sq th roll R v [s..s + int L - 1] L 0 score [] =
           Inr (score', [s..s + int L - 1])"
proof -
  have len: "length [s..s + int L - 1] = L" by simp
  have first: "[s..s + int L - 1] ! 0 = s" using L by (simp add: nth_upto)
  show ?thesis
    apply (subst slice_scan.simps)
    apply (simp only: len first Let_def ok credit sum.case total)
    using L apply (simp add: list_all_iff slice_scan_done)
    done
qed

lemma get_slice_score_whole_run:
  assumes "1 \<le> L" and "L \<le> R"
    and "respect_defects th (p - int L) p roll = Inr True"
    and credit: "checked_mul (sq (true_div L R)) v = Inr x"
  shows "get_slice_score sq p L R v th roll = Inr x"
proof -
  have ok: "respect_defects th (p - int L) (p - int L + int L) roll = Inr True"
    using assms(3) by simp
  have rng: "[p - int L..p - 1] = [p - int L..p - int L + int L - 1]" by simp
  have ne: "[p - int L..p - int L + int L - 1] \<noteq> []" using assms(1) by simp
  have m: "min R L = L" using assms(2) by simp
  note scan = slice_scan_whole_run [where sq = sq and R = R and v = v and x = x and score = 0,
      OF assms(1) ok credit checked_add_zero_left [OF credit]]
  show ?thesis
    unfolding get_slice_score_def rng m
    apply (subst slice_passes.simps)
    using assms(1) ne apply (simp only: scan)
    apply (simp add: remove_each_self)
    apply (subst slice_passes.simps)
    apply (simp add: checked_sub_zero_right [OF credit])
    done
qed











text \<open>
  A positive value does not always give a positive credit: for the least positive double
  as the value and half the required length, the product \<open>0.25 * 5e-324\<close> rounds to zero.
\<close>

lemma get_slice_score_underflow:
  "0 < two_pow (- 1074) \<and>
   get_slice_score square_rounded 1 1 2 (two_pow (- 1074)) threshold_abc roll_zero10 = Inr 0"
proof -
  have ok: "respect_defects threshold_abc (1 - int 1) 1 roll_zero10 = Inr True"
    by (simp add: respect_defects_def zero_defects_def threshold_abc_def roll_zero10_def upto_rec1)
  have a: "to_float (square_rounded (true_div 1 2)) = two_pow (- 2)"
    "\<not> overflow (to_float (square_rounded (true_div 1 2)))"
    by code_simp+
  have "round_double (of_int 1 * two_pow (- 1074)) = of_int 1 * two_pow (- 1074)"
    by (rule round_double_of_repr) simp_all
  then have b: "to_float (two_pow (- 1074)) = two_pow (- 1074)" by (simp add: to_float_def)
  have nb: "\<not> overflow (two_pow (- 1074))"
    using two_pow_pos [of "- 1074"] by (intro not_overflow_le_pow [of _ "- 1074"]) simp_all
  have "two_pow (- 2) * two_pow (- 1074) = two_pow (- 1076)" by (simp add: two_pow_add [symmetric])
  moreover have "two_pow (- 1076) \<le> two_pow (- 1075)" by (rule two_pow_mono) simp
  ultimately have "\<bar>two_pow (- 2) * two_pow (- 1074)\<bar> \<le> two_pow (- 1075)"
    using two_pow_pos [of "- 1076"] by simp
  then have "round_double (two_pow (- 2) * two_pow (- 1074)) = 0" by (rule round_double_underflow)
  then have p: "float_mul (square_rounded (true_div 1 2)) (two_pow (- 1074)) = 0"
    by (simp only: float_mul_def a(1) b)
  have credit: "checked_mul (square_rounded (true_div 1 2)) (two_pow (- 1074)) = Inr 0"
    using a(2) nb by (simp only: checked_mul_def checked_def p b) (simp add: overflow_zero)
  have "get_slice_score square_rounded 1 1 2 (two_pow (- 1074)) threshold_abc roll_zero10 = Inr 0"
    using get_slice_score_whole_run [OF _ _ ok, of 2 square_rounded "two_pow (- 1074)" 0] credit
    by simp
  then show ?thesis using two_pow_pos [of "- 1074"] by simp
qed

section \<open>Properties of crossover and mutation\<close>

lemma slice_assign_in_range:
  assumes "s \<le> e" and "e \<le> length p" and "length child = length p"
  shows "slice_assign child s e p = Inr (take s child @ take (e - s) (drop s p) @ drop e child)"
proof -
  have "length (take (e - s) (drop s p)) = min e (length child) - min s (length child)"
    using assms by simp
  then show ?thesis
    unfolding slice_assign_def Let_def by (rule if_P)
qed

lemma sorted_hd_least: "sorted xs \<Longrightarrow> x \<in> set xs \<Longrightarrow> hd xs \<le> (x::nat)"
  by (cases xs) auto

lemma sorted_last_greatest: "sorted xs \<Longrightarrow> x \<in> set xs \<Longrightarrow> (x::nat) \<le> last xs"
  by (induction xs) (auto split: if_splits)

text \<open>
  The segments between sorted breakpoints tile the chromosome from the first breakpoint to
  the last: with one and the same parent on both sides, the child agrees with it up to the
  last breakpoint, whatever the coin flips are.
\<close>

lemma cross_segments_same_parent:
  assumes "sorted bps" and "bps \<noteq> []" and "\<forall>b\<in>set bps. b \<le> length p"
    and "length child = length p" and "take (hd bps) child = take (hd bps) p"
  shows "\<exists>c. cross_segments child p p bps flip i = Inr c \<and> length c = length p \<and>
             take (last bps) c = take (last bps) p"
  using assms
proof (induction bps arbitrary: child i)
  case Nil
  then show ?case by simp
next
  case (Cons s rest)
  show ?case
  proof (cases rest)
    case Nil
    with Cons.prems show ?thesis by simp
  next
    case (Cons e bps')
    have se: "s \<le> e" and en: "e \<le> length p"
      using Cons.prems(1,3) Cons by auto
    define child' where "child' = take s child @ take (e - s) (drop s p) @ drop e child"
    have step: "slice_assign child s e p = Inr child'"
      unfolding child'_def using se en Cons.prems(4) by (rule slice_assign_in_range)
    have len': "length child' = length p"
      using se en Cons.prems(4) by (simp add: child'_def)
    have "take e child' = take s child @ take (e - s) (drop s p)"
      using se en Cons.prems(4) by (simp add: child'_def)
    also have "\<dots> = take s p @ take (e - s) (drop s p)"
      using Cons.prems(5) by simp
    also have "\<dots> = take e p"
      using se by (metis le_add_diff_inverse take_add)
    finally have pre': "take (hd rest) child' = take (hd rest) p"
      using Cons by simp
    have "\<exists>c. cross_segments child' p p rest flip (Suc i) = Inr c \<and> length c = length p \<and>
             take (last rest) c = take (last rest) p"
      using Cons.IH [OF _ _ _ len' pre'] Cons.prems(1,3) Cons by simp
    then show ?thesis
      using step Cons by simp
  qed
qed

lemma sorted_break_points:
  fixes n :: nat
  assumes "b1 \<le> n" and "b2 \<le> n" and "b3 \<le> n"
  shows "sorted (sort [0, n, b1, b2, b3])" and "sort [0, n, b1, b2, b3] \<noteq> []"
    and "\<forall>b\<in>set (sort [0, n, b1, b2, b3]). b \<le> n"
    and "hd (sort [0, n, b1, b2, b3]) = 0" and "last (sort [0, n, b1, b2, b3]) = n"
proof -
  let ?bps = "sort [0, n, b1, b2, b3]"
  show s: "sorted ?bps" by (rule sorted_sort)
  show ne: "?bps \<noteq> []" by (metis length_sort list.size(3) length_Cons nat.distinct(1))
  have mem: "set ?bps = {0, n, b1, b2, b3}" by (simp only: set_sort) simp
  show bound: "\<forall>b\<in>set ?bps. b \<le> n" using assms unfolding mem by auto
  show "hd ?bps = 0" using sorted_hd_least [OF s, of 0] unfolding mem by simp
  have "n \<le> last ?bps" using sorted_last_greatest [OF s, of n] unfolding mem by simp
  moreover have "last ?bps \<le> n" using bound ne last_in_set by blast
  ultimately show "last ?bps = n" by simp
qed

text \<open>
  Claim C7. When both parents are the same chromosome, the child of the crossover block
  equals that chromosome at every position, for every choice of the three breakpoints
  inside the chromosome (distinct or not) and every outcome \<open>flip\<close> of the coin flips.
\<close>

theorem crossover_identical_parents:
  assumes "b1 < length p" and "b2 < length p" and "b3 < length p"
  shows "crossover p p (b1, b2, b3) flip = Inr p"
proof -
  let ?bps = "sort [0, length p, b1, b2, b3]"
  have le: "b1 \<le> length p" "b2 \<le> length p" "b3 \<le> length p" using assms by simp_all
  note bp = sorted_break_points [OF le]
  obtain c where c: "cross_segments (replicate (length p) 0) p p ?bps flip 0 = Inr c"
      "length c = length p" "take (last ?bps) c = take (last ?bps) p"
    using cross_segments_same_parent [OF bp(1) bp(2) bp(3), of "replicate (length p) 0" flip 0]
    unfolding bp(4) by auto
  have "c = p" using c(2,3) unfolding bp(5) by simp
  then show ?thesis using c(1) by (simp only: crossover_def prod.case)
qed

theorem crossover_identical_parents_witness:
  "crossover [0, 0, 3, - 1, 2] [0, 0, 3, - 1, 2] (4, 0, 2) (\<lambda>i. if even i then 0 else 3 / 4)
     = Inr [0, 0, 3, - 1, 2]"
  using crossover_identical_parents [of 4 "[0, 0, 3, - 1, 2]" 0 2 "\<lambda>i. if even i then 0 else 3 / 4"]
  by simp

text \<open>
  Claim C8 says that with mutation rate \<open>0\<close> no gene ever changes, for every outcome of the
  random draws. A gene is kept only if \<^verbatim>\<open>random.random() > mutation_rate\<close>, and
  \<^verbatim>\<open>random.random()\<close> ranges over \<open>0 \<le> u < 1\<close>: at the draw \<open>u = 0\<close> the comparison \<open>0 > 0\<close> fails
  and the gene is replaced by the value of \<^verbatim>\<open>random.randint(-1, 3)\<close>. Here the gene \<open>0\<close>
  becomes \<open>3\<close> at rate \<open>0\<close>.
\<close>

theorem mutation_rate_zero_changes_gene:
  "mutation (\<lambda>g. 0) (\<lambda>g. 3) 0 0 [0] = [3]"
  by simp

text \<open>What does hold at rate \<open>0\<close>: a chromosome whose draws are all positive is unchanged.\<close>

lemma mutation_keeps_above_rate:
  "(\<forall>g. g0 \<le> g \<and> g < g0 + length c \<longrightarrow> mutation_rate < u g) \<Longrightarrow>
     mutation u r mutation_rate g0 c = c"
proof (induction c arbitrary: g0)
  case Nil
  show ?case by simp
next
  case (Cons gene rest)
  have "mutation u r mutation_rate (Suc g0) rest = rest"
    by (rule Cons.IH) (use Cons.prems in auto)
  moreover have "mutation_rate < u g0" using Cons.prems by simp
  ultimately show ?case by simp
qed

lemma length_mutation: "length (mutation u r mutation_rate g c) = length c"
  by (induction c arbitrary: g) simp_all

section \<open>Properties of the Population Evolver\<close>

lemma argsort_stable_ok: "argsort_ok argsort_stable"
  by (simp add: argsort_ok_def argsort_stable_def)

lemma mset_argsort: "argsort_ok srt \<Longrightarrow> mset (srt fv) = mset [0..<length fv]"
  by (simp add: argsort_ok_def)

lemma sorted_argsort: "argsort_ok srt \<Longrightarrow> sorted (map (\<lambda>i. fv ! i) (srt fv))"
  by (simp add: argsort_ok_def)

lemma length_argsort: "argsort_ok srt \<Longrightarrow> length (srt fv) = length fv"
  using mset_eq_length [OF mset_argsort, of srt fv] by simp

lemma set_argsort: "argsort_ok srt \<Longrightarrow> set (srt fv) = {0..<length fv}"
  using mset_eq_setD [OF mset_argsort, of srt fv] by simp

text \<open>
  When the scores are pairwise different, numpy's contract fixes the order: every sorting
  function it allows returns what the stable one returns.
\<close>

lemma argsort_distinct_unique:
  assumes "argsort_ok srt" and "distinct fv"
  shows "srt fv = argsort_stable fv"
proof -
  let ?f = "\<lambda>i. fv ! i"
  note ok' = argsort_stable_ok
  have d: "distinct (srt fv)" "distinct (argsort_stable fv)"
    using mset_argsort [OF assms(1), of fv] mset_argsort [OF ok', of fv]
    by (metis distinct_upt mset_eq_imp_distinct_iff)+
  have s: "set (srt fv) = {0..<length fv}" "set (argsort_stable fv) = {0..<length fv}"
    using set_argsort [OF assms(1)] set_argsort [OF ok'] by simp_all
  have inj: "inj_on ?f {0..<length fv}"
    using assms(2) by (auto simp: inj_on_def nth_eq_iff_index_eq)
  have "map ?f (srt fv) = map ?f (argsort_stable fv)"
  proof (rule sorted_distinct_set_unique)
    show "sorted (map ?f (srt fv))" using assms(1) by (rule sorted_argsort)
    show "sorted (map ?f (argsort_stable fv))" using ok' by (rule sorted_argsort)
    show "distinct (map ?f (srt fv))" using d(1) inj by (simp add: distinct_map s)
    show "distinct (map ?f (argsort_stable fv))" using d(2) inj by (simp add: distinct_map s)
    show "set (map ?f (srt fv)) = set (map ?f (argsort_stable fv))" by (simp add: s)
  qed
  moreover have "inj_on ?f (set (srt fv) \<union> set (argsort_stable fv))" using inj by (simp add: s)
  ultimately show ?thesis by (simp add: inj_on_map_eq_map)
qed

lemma fitness_values_length:
  "fitness_values f cat roll pop = Inr fv \<Longrightarrow> length fv = length pop"
  by (induction pop arbitrary: fv) (auto split: sum.splits)

lemma fitness_values_nth:
  "fitness_values f cat roll pop = Inr fv \<Longrightarrow> i < length pop \<Longrightarrow> f (pop ! i) cat roll = Inr (fv ! i)"
proof (induction pop arbitrary: fv i)
  case Nil
  then show ?case by simp
next
  case (Cons c rest)
  then show ?case by (cases i) (auto split: sum.splits)
qed

lemma fitness_values_total:
  "(\<forall>c\<in>set pop. \<exists>s. f c cat roll = Inr s) \<Longrightarrow> \<exists>fv. fitness_values f cat roll pop = Inr fv"
  by (induction pop) auto

lemma fitness_values_reorder:
  assumes "fitness_values f cat roll pop = Inr fv" and "\<forall>i\<in>set idx. i < length pop"
  shows "fitness_values f cat roll (map (\<lambda>i. pop ! i) idx) = Inr (map (\<lambda>i. fv ! i) idx)"
  using assms(2)
proof (induction idx)
  case Nil
  show ?case by simp
next
  case (Cons i rest)
  then show ?case using fitness_values_nth [OF assms(1), of i] by simp
qed

lemma py_int_neg: "0 \<le> x \<Longrightarrow> py_int (- x) = - \<lfloor>x\<rfloor>"
  by (auto simp: py_int_def ceiling_minus)

lemma slice_from_zero: "slice_from 0 xs = xs"
  by (simp add: slice_from_def)

lemma slice_from_last: "0 < k \<Longrightarrow> slice_from (- int k) xs = drop (length xs - k) xs"
  by (auto simp: slice_from_def max_def nat_diff_distrib')

lemma length_slice_from: "length (slice_from k xs) \<le> length xs"
  by (simp add: slice_from_def)

text \<open>
  The cut of the elite slice: the product with the negated length is the negation of
  \<open>elite_product\<close>, and \<^verbatim>\<open>int\<close> truncates it to minus the floor of the product.
\<close>

lemma float_mul_minus: "float_mul (- a) b = - float_mul a b"
  by (simp add: float_mul_def to_float_def round_double_minus)

lemma elite_product_nonneg: "0 \<le> er \<Longrightarrow> 0 \<le> elite_product n er"
  unfolding elite_product_def by (rule float_mul_nonneg) simp_all

lemma elite_cut:
  "0 \<le> elite_product n er \<Longrightarrow> py_int (float_mul (- of_nat n) er) = - \<lfloor>elite_product n er\<rfloor>"
  unfolding float_mul_minus elite_product_def by (rule py_int_neg)

lemma elite_product_zero: "elite_product n 0 = 0"
  by (simp add: elite_product_def float_mul_def to_float_def round_double_zero)

lemma elite_product_of_double:
  assumes "n \<le> 2 ^ 53" and "round_double er = er"
  shows "elite_product n er = round_double (of_nat n * er)"
  by (simp add: elite_product_def float_mul_def to_float_def round_double_of_nat [OF assms(1)]
      assms(2))

lemma elite_product_ge_size:
  assumes "1 \<le> er" and "n \<le> 2 ^ 53"
  shows "int n \<le> \<lfloor>elite_product n er\<rfloor>"
proof (cases "n = 0")
  case True
  then show ?thesis
    by (simp add: elite_product_def float_mul_def to_float_def round_double_zero)
next
  case False
  have rn: "to_float (of_nat n) = of_nat n"
    unfolding to_float_def using assms(2) by (rule round_double_of_nat)
  have r1: "1 \<le> to_float er" unfolding to_float_def using assms(1) by (rule round_double_ge_one)
  have "(of_nat n :: rat) * 1 \<le> of_nat n * to_float er"
    using r1 by (intro mult_left_mono) simp_all
  then have le: "of_int (int n) \<le> of_nat n * to_float er" by simp
  have "int n \<le> int (2 ^ 53)" using assms(2) by (simp only: of_nat_le_iff)
  then have "int n \<le> 2 ^ 53" by simp
  then have "of_int (int n) \<le> round_double (of_nat n * to_float er)"
    using le False by (intro round_double_ge_int) simp_all
  then show ?thesis by (simp add: elite_product_def float_mul_def rn le_floor_iff)
qed

text \<open>
  The elite cut does not overflow on an empty population, nor when the population size
  and the magnitude of the elite ratio are at most \<open>2 ^ 53\<close>.
\<close>

lemma elite_cut_overflows_zero: "\<not> elite_cut_overflows 0 er"
  by (simp add: elite_cut_overflows_def float_mul_def to_float_def round_double_zero
      overflow_zero)

lemma elite_cut_finite:
  assumes "n \<le> 2 ^ 53" and "\<bar>er\<bar> \<le> 2 ^ 53"
  shows "\<not> elite_cut_overflows n er"
proof -
  have n: "to_float (of_nat n) = of_nat n"
    unfolding to_float_def using assms(1) by (rule round_double_of_nat)
  have "(of_nat n :: rat) \<le> of_nat (2 ^ 53)" using assms(1) by (simp only: of_nat_le_iff)
  then have n53: "\<bar>of_nat n :: rat\<bar> \<le> two_pow 53" by (simp add: two_pow_def)
  have "\<bar>er\<bar> \<le> two_pow 53" using assms(2) by (simp add: two_pow_def)
  then have r53: "\<bar>to_float er\<bar> \<le> two_pow 53"
    unfolding to_float_def by (rule round_double_abs_le_pow) simp
  have "\<bar>to_float (- of_nat n) * to_float er\<bar> = \<bar>of_nat n :: rat\<bar> * \<bar>to_float er\<bar>"
    using n by (simp add: to_float_def round_double_minus abs_mult)
  also have "\<dots> \<le> two_pow 53 * two_pow 53"
    using n53 r53 by (intro mult_mono) simp_all
  also have "\<dots> = two_pow 106" by (simp add: two_pow_add [symmetric])
  finally have "\<bar>float_mul (- of_nat n) er\<bar> \<le> two_pow 106"
    unfolding float_mul_def by (rule round_double_abs_le_pow) simp
  then have "\<not> overflow (float_mul (- of_nat n) er)" by (rule not_overflow_le_pow) simp
  moreover have "\<not> overflow (to_float (of_nat n))"
    unfolding n using n53 by (rule not_overflow_le_pow) simp
  ultimately show ?thesis by (simp add: elite_cut_overflows_def)
qed

text \<open>
  The computed product is not the exact one: for the ratio \<^verbatim>\<open>0.7\<close> and ten chromosomes the
  code keeps seven elites, where the floor of the exact product of the double \<^verbatim>\<open>0.7\<close> is
  six; for \<^verbatim>\<open>0.58\<close> and fifty chromosomes it keeps \<open>28\<close>; for the double nearest to \<open>1/3\<close> and
  three chromosomes it keeps one, where the floor of the exact product is zero.
\<close>

lemma elite_product_examples:
  "\<lfloor>elite_product 10 (round_double (7 / 10))\<rfloor> = 7 \<and>
   \<lfloor>of_nat 10 * round_double (7 / 10)\<rfloor> = 6 \<and>
   \<lfloor>elite_product 50 (round_double (58 / 100))\<rfloor> = 28 \<and>
   \<lfloor>elite_product 3 (round_double (1 / 3))\<rfloor> = 1 \<and>
   \<lfloor>of_nat 3 * round_double (1 / 3)\<rfloor> = 0"
  by code_simp

lemma elite_idx_none:
  assumes "0 \<le> elite_product (length pop) er" and "elite_product (length pop) er < 1"
  shows "elite_idx srt pop er fv = srt fv"
proof -
  have "\<lfloor>elite_product (length pop) er\<rfloor> = 0" using assms by (simp add: floor_eq_iff)
  then have "py_int (float_mul (- of_nat (length pop)) er) = 0"
    using elite_cut [OF assms(1)] by simp
  then show ?thesis by (simp add: elite_idx_def slice_from_zero)
qed

lemma elite_idx_top:
  assumes "1 \<le> \<lfloor>elite_product (length pop) er\<rfloor>"
  shows "elite_idx srt pop er fv =
           drop (length (srt fv) - nat \<lfloor>elite_product (length pop) er\<rfloor>) (srt fv)"
proof -
  let ?k = "nat \<lfloor>elite_product (length pop) er\<rfloor>"
  have nn: "0 \<le> elite_product (length pop) er" using assms by (simp add: le_floor_iff)
  have "py_int (float_mul (- of_nat (length pop)) er) = - \<lfloor>elite_product (length pop) er\<rfloor>"
    using nn by (rule elite_cut)
  also have "\<dots> = - int ?k" using assms by simp
  finally have eq: "py_int (float_mul (- of_nat (length pop)) er) = - int ?k" .
  have pos: "0 < ?k" using assms by simp
  show ?thesis unfolding elite_idx_def eq using pos by (rule slice_from_last)
qed

lemma make_children_length:
  "make_children rnd pop mr todo k = Inr cs \<Longrightarrow> length cs = todo"
  by (induction todo arbitrary: k cs) (auto split: sum.splits)

lemma length_select_elites:
  "argsort_ok srt \<Longrightarrow> length (select_elites srt pop er fv) \<le> length fv"
  using length_slice_from [of _ "srt fv"]
  by (simp add: select_elites_def elite_idx_def length_argsort)

lemma evolve_pop_size_if_returns:
  assumes "argsort_ok srt" and "evolve_pop srt rnd pop mr er cat roll f = Inr pop'"
  shows "length pop' = length pop"
proof -
  obtain fv where fv: "fitness_values f cat roll pop = Inr fv"
    using assms(2) by (auto simp: evolve_pop_def split: sum.splits)
  obtain cs where
    cs: "make_children rnd pop mr (length pop - length (select_elites srt pop er fv)) 0 = Inr cs"
    and pop': "pop' = cs @ select_elites srt pop er fv"
    using assms(2) fv by (auto simp: evolve_pop_def Let_def split: sum.splits if_splits)
  have "length (select_elites srt pop er fv) \<le> length pop"
    using length_select_elites [OF assms(1), of pop er fv] fitness_values_length [OF fv] by simp
  then show ?thesis using make_children_length [OF cs] pop' by simp
qed

text \<open>
  The selection weights are at least one each, so the probabilities handed to the weighted
  choice are positive and add up to one: numpy accepts them, and every pair of distinct
  indices is a possible outcome.
\<close>

lemma shifted_fitness_ge_one:
  assumes "x \<in> set (shifted_fitness fv)"
  shows "1 \<le> x"
proof -
  obtain f where f: "f \<in> set fv" "x = f - Min (set fv) + 1"
    using assms by (auto simp: shifted_fitness_def)
  have "Min (set fv) \<le> f" using f(1) by simp
  then show ?thesis using f(2) by simp
qed

lemma sum_list_ge_length:
  "(\<forall>x\<in>set xs. 1 \<le> x) \<Longrightarrow> of_nat (length xs) \<le> (sum_list xs :: rat)"
  by (induction xs) auto

lemma sum_list_divide: "sum_list (map (\<lambda>x. x / c) xs) = sum_list xs / (c :: rat)"
  by (induction xs) (simp_all add: add_divide_distrib)

lemma probabilities_valid:
  assumes "fv \<noteq> []"
  shows "(\<forall>p\<in>set (probabilities fv). 0 < p) \<and> sum_list (probabilities fv) = 1 \<and>
         length (probabilities fv) = length fv"
proof -
  let ?w = "shifted_fitness fv"
  have ge: "\<forall>x\<in>set ?w. 1 \<le> x" using shifted_fitness_ge_one by blast
  have len: "length ?w = length fv" by (simp add: shifted_fitness_def)
  have "of_nat (length ?w) \<le> sum_list ?w" using ge by (rule sum_list_ge_length)
  moreover have "0 < length ?w" using assms len by simp
  ultimately have pos: "0 < sum_list ?w"
    by (metis of_nat_0_less_iff less_le_trans)
  have "\<forall>p\<in>set (probabilities fv). 0 < p"
  proof
    fix p assume "p \<in> set (probabilities fv)"
    then obtain x where "x \<in> set ?w" "p = x / sum_list ?w" by (auto simp: probabilities_def)
    then show "0 < p" using ge pos by (auto intro!: divide_pos_pos dest!: bspec [where x = x])
  qed
  moreover have "sum_list (probabilities fv) = 1"
    using pos by (simp add: probabilities_def sum_list_divide)
  ultimately show ?thesis by (simp add: probabilities_def len)
qed

lemma cross_segments_total:
  assumes "sorted bps" and "\<forall>b\<in>set bps. b \<le> n"
    and "length child = n" and "length p1 = n" and "length p2 = n"
  shows "\<exists>c. cross_segments child p1 p2 bps flip i = Inr c \<and> length c = n"
  using assms(1,2,3)
proof (induction bps arbitrary: child i)
  case Nil
  then show ?case by simp
next
  case (Cons s rest)
  show ?case
  proof (cases rest)
    case Nil
    with Cons.prems show ?thesis by simp
  next
    case (Cons e bps')
    let ?src = "if flip i < 1 / 2 then p1 else p2"
    have se: "s \<le> e" and en: "e \<le> n"
      using Cons.prems(1,2) Cons by auto
    have src: "length ?src = n" using assms(4,5) by simp
    define child' where "child' = take s child @ take (e - s) (drop s ?src) @ drop e child"
    have step: "slice_assign child s e ?src = Inr child'"
      unfolding child'_def using se en Cons.prems(3) src by (intro slice_assign_in_range) simp_all
    have len': "length child' = n"
      using se en Cons.prems(3) src by (simp add: child'_def)
    have "\<exists>c. cross_segments child' p1 p2 rest flip (Suc i) = Inr c \<and> length c = n"
      using Cons.IH [OF _ _ len'] Cons.prems(1,2) by simp
    then show ?thesis
      using step Cons by simp
  qed
qed

lemma crossover_total:
  assumes "b1 < length p1" and "b2 < length p1" and "b3 < length p1"
    and "length p2 = length p1"
  shows "\<exists>c. crossover p1 p2 (b1, b2, b3) flip = Inr c \<and> length c = length p1"
proof -
  have le: "b1 \<le> length p1" "b2 \<le> length p1" "b3 \<le> length p1" using assms by simp_all
  note bp = sorted_break_points [OF le]
  show ?thesis
    unfolding crossover_def prod.case
    using bp(1) bp(3) by (rule cross_segments_total) (simp_all add: assms(4))
qed

lemma make_child_total:
  assumes "2 \<le> length pop" and "valid_draws (length pop) len d"
    and "\<forall>c\<in>set pop. length c = len" and "3 \<le> len"
  shows "\<exists>c. make_child d pop mr = Inr c \<and> length c = len"
proof -
  obtain p1 p2 b1 b2 b3 where d: "parents_indices d = (p1, p2)" "break_points d = (b1, b2, b3)"
    by (metis prod.exhaust)
  have v: "p1 < length pop" "p2 < length pop" "b1 < len" "b2 < len" "b3 < len"
    using assms(2) by (simp_all add: valid_draws_def d)
  have l1: "length (pop ! p1) = len" and l2: "length (pop ! p2) = len"
    using assms(3) v(1,2) by simp_all
  obtain c where c: "crossover (pop ! p1) (pop ! p2) (b1, b2, b3) (coin d) = Inr c" "length c = len"
    using crossover_total [of b1 "pop ! p1" b2 b3 "pop ! p2" "coin d"] v l1 l2 by auto
  show ?thesis
    using assms(1,4) c l1 by (simp add: make_child_def d Let_def length_mutation)
qed

lemma make_children_total:
  assumes "2 \<le> length pop \<or> todo = 0" and "\<forall>k. valid_draws (length pop) len (rnd k)"
    and "\<forall>c\<in>set pop. length c = len" and "3 \<le> len"
  shows "\<exists>cs. make_children rnd pop mr todo k = Inr cs \<and> length cs = todo \<and>
              (\<forall>c\<in>set cs. length c = len)"
  using assms(1)
proof (induction todo arbitrary: k)
  case 0
  show ?case by simp
next
  case (Suc todo)
  then have two: "2 \<le> length pop" by simp
  obtain c where c: "make_child (rnd k) pop mr = Inr c" "length c = len"
    using make_child_total [OF two _ assms(3,4), of "rnd k" mr] assms(2) by auto
  obtain cs where cs: "make_children rnd pop mr todo (Suc k) = Inr cs" "length cs = todo"
      "\<forall>c\<in>set cs. length c = len"
    using Suc.IH two by auto
  show ?case using c cs by simp
qed

lemma select_elites_all:
  assumes "0 \<le> elite_product (length pop) er" and "elite_product (length pop) er < 1"
  shows "select_elites srt pop er fv = map (\<lambda>i. pop ! i) (srt fv)"
  by (simp add: select_elites_def elite_idx_none [OF assms])

lemma select_elites_top:
  assumes "argsort_ok srt" and "1 \<le> \<lfloor>elite_product (length pop) er\<rfloor>"
  shows "select_elites srt pop er fv =
           map (\<lambda>i. pop ! i)
             (drop (length fv - nat \<lfloor>elite_product (length pop) er\<rfloor>) (srt fv))"
  by (simp add: select_elites_def elite_idx_top [OF assms(2)] length_argsort [OF assms(1)])

lemma elites_nonempty:
  assumes "argsort_ok srt" and "0 \<le> er" and "pop \<noteq> []" and "length fv = length pop"
  shows "1 \<le> length (select_elites srt pop er fv)"
proof (cases "1 \<le> \<lfloor>elite_product (length pop) er\<rfloor>")
  case True
  then have k: "1 \<le> nat \<lfloor>elite_product (length pop) er\<rfloor>" by linarith
  have n: "1 \<le> length pop" using assms(3) by (simp add: Suc_le_eq)
  have "length (select_elites srt pop er fv) =
          length pop - (length pop - nat \<lfloor>elite_product (length pop) er\<rfloor>)"
    using assms(4)
    by (simp add: select_elites_top [OF assms(1) True] length_argsort [OF assms(1)])
  then show ?thesis using k n by linarith
next
  case False
  have nn: "0 \<le> elite_product (length pop) er" using assms(2) by (rule elite_product_nonneg)
  have "elite_product (length pop) er < 1" using False by (simp add: le_floor_iff)
  then show ?thesis
    using assms(3,4)
    by (simp add: select_elites_all [OF nn] length_argsort [OF assms(1)] Suc_le_eq)
qed

lemma evolve_pop_total:
  assumes "pop \<noteq> []" and "0 \<le> er" and "fitness_values f cat roll pop = Inr fv"
    and "\<forall>c\<in>set pop. length c = len" and "3 \<le> len"
    and "\<forall>k. valid_draws (length pop) len (rnd k)"
    and ok: "argsort_ok srt"
    and fin: "\<not> elite_cut_overflows (length pop) er"
  shows "\<exists>offspring. evolve_pop srt rnd pop mr er cat roll f = Inr (offspring @ select_elites srt pop er fv) \<and>
           length offspring + length (select_elites srt pop er fv) = length pop \<and>
           (\<forall>c\<in>set offspring. length c = len)"
proof -
  let ?elites = "select_elites srt pop er fv"
  have len: "length fv = length pop" using assms(3) by (rule fitness_values_length)
  have e1: "1 \<le> length ?elites" using ok assms(2,1) len by (rule elites_nonempty)
  have e2: "length ?elites \<le> length pop"
    using length_select_elites [OF ok, of pop er fv] len by simp
  have "2 \<le> length pop \<or> length pop - length ?elites = 0" using e1 by linarith
  then obtain cs where cs: "make_children rnd pop mr (length pop - length ?elites) 0 = Inr cs"
      "length cs = length pop - length ?elites" "\<forall>c\<in>set cs. length c = len"
    using make_children_total [OF _ assms(6,4,5), of "length pop - length ?elites" mr 0] by auto
  have "fv \<noteq> []" using len assms(1) by auto
  then have "evolve_pop srt rnd pop mr er cat roll f = Inr (cs @ ?elites)"
    using cs(1) fin by (simp add: evolve_pop_def assms(3) Let_def)
  then show ?thesis using cs(2,3) e2 by auto
qed

lemma fitness_values_population3:
  "fitness_values fitness_1 catalog_notebook roll_zero10 population3 = Inr [- 1, 3, - 4]"
  by code_simp

lemma valid_draws_fixed: "valid_draws 3 4 (draws_fixed k)"
  by (simp add: valid_draws_def draws_fixed_def)

lemma mset_reordered:
  assumes "argsort_ok srt" and "length fv = length pop"
  shows "mset (map (\<lambda>i. pop ! i) (srt fv)) = mset pop"
proof -
  have "mset (map (\<lambda>i. pop ! i) (srt fv)) = image_mset (\<lambda>i. pop ! i) (mset (srt fv))"
    by simp
  also have "\<dots> = image_mset (\<lambda>i. pop ! i) (mset [0..<length pop])"
    by (simp only: mset_argsort [OF assms(1)] assms(2))
  also have "\<dots> = mset (map (\<lambda>i. pop ! i) [0..<length pop])" by simp
  also have "\<dots> = mset pop" by (simp only: map_nth)
  finally show ?thesis .
qed

lemma evolve_pop_overflow:
  assumes "fitness_values f cat roll pop = Inr fv" and "elite_cut_overflows (length pop) er"
  shows "evolve_pop srt rnd pop mr er cat roll f = Inl OverflowError"
  using assms by (simp add: evolve_pop_def)

lemma evolve_pop_empty: "evolve_pop srt rnd [] mr er cat roll f = Inl ValueError"
  by (simp add: evolve_pop_def elite_cut_overflows_zero)

lemma sorted_take_drop:
  assumes "sorted (map f xs)"
  shows "\<forall>i\<in>set (take m xs). \<forall>j\<in>set (drop m xs). f i \<le> f j"
proof -
  have "sorted (map f (take m xs) @ map f (drop m xs))"
    using assms by (simp only: map_append [symmetric] append_take_drop_id)
  then show ?thesis by (auto simp: sorted_append)
qed

text \<open>
  Claim C1. Whenever \<^verbatim>\<open>evolve_pop\<close> returns a population, it has exactly the size of the input
  population; and it does return one, made of the offspring followed by the elites, whose
  counts add up to the input size, for every non-empty population and every elite ratio
  from \<open>0\<close> on whose product with the population size does not overflow (none does with
  a ratio and a size up to \<open>2 ^ 53\<close>), provided the fitness evaluation succeeds on every
  chromosome, all chromosomes have one length of at least three (three distinct
  breakpoints exist) and the draws are outcomes the random sources can produce. This holds
  for every order \<^verbatim>\<open>np.argsort\<close> may give to equal scores.
\<close>

theorem evolve_pop_population_size:
  assumes "argsort_ok srt"
  shows
  "(\<forall>pop'. evolve_pop srt rnd population mutation_rate elite_ratio cat roll fitness = Inr pop'
       \<longrightarrow> length pop' = length population) \<and>
   (population \<noteq> [] \<and> 0 \<le> elite_ratio \<and>
    \<not> elite_cut_overflows (length population) elite_ratio \<and>
    fitness_values fitness cat roll population = Inr fv \<and>
    (\<forall>c\<in>set population. length c = len) \<and> 3 \<le> len \<and>
    (\<forall>k. valid_draws (length population) len (rnd k))
    \<longrightarrow> (\<exists>offspring.
          evolve_pop srt rnd population mutation_rate elite_ratio cat roll fitness =
            Inr (offspring @ select_elites srt population elite_ratio fv) \<and>
          length (select_elites srt population elite_ratio fv) + length offspring
            = length population))"
proof (intro conjI allI impI)
  fix pop'
  assume "evolve_pop srt rnd population mutation_rate elite_ratio cat roll fitness = Inr pop'"
  with assms show "length pop' = length population" by (rule evolve_pop_size_if_returns)
next
  assume a: "population \<noteq> [] \<and> 0 \<le> elite_ratio \<and>
    \<not> elite_cut_overflows (length population) elite_ratio \<and>
    fitness_values fitness cat roll population = Inr fv \<and>
    (\<forall>c\<in>set population. length c = len) \<and> 3 \<le> len \<and>
    (\<forall>k. valid_draws (length population) len (rnd k))"
  then obtain offspring where
    "evolve_pop srt rnd population mutation_rate elite_ratio cat roll fitness =
       Inr (offspring @ select_elites srt population elite_ratio fv)"
    "length offspring + length (select_elites srt population elite_ratio fv) = length population"
    using evolve_pop_total [of population elite_ratio fitness cat roll fv len rnd srt
        mutation_rate] assms
    by blast
  then show "\<exists>offspring.
          evolve_pop srt rnd population mutation_rate elite_ratio cat roll fitness =
            Inr (offspring @ select_elites srt population elite_ratio fv) \<and>
          length (select_elites srt population elite_ratio fv) + length offspring
            = length population"
    by (intro exI [of _ offspring]) simp
qed

theorem evolve_pop_population_size_witness:
  "\<exists>offspring.
     evolve_pop argsort_stable draws_fixed population3 0 (1 / 2) catalog_notebook roll_zero10
         fitness_1 =
       Inr (offspring @ select_elites argsort_stable population3 (1 / 2) [- 1, 3, - 4]) \<and>
     length (select_elites argsort_stable population3 (1 / 2) [- 1, 3, - 4]) + length offspring
       = 3"
proof -
  have len: "\<forall>c\<in>set population3. length c = 4" "length population3 = 3" "population3 \<noteq> []"
    by (simp_all add: population3_def)
  have fin: "\<not> elite_cut_overflows (length population3) (1 / 2)" by code_simp
  show ?thesis
    using evolve_pop_population_size [OF argsort_stable_ok, of draws_fixed population3 0 "1 / 2"
        catalog_notebook roll_zero10 fitness_1 "[- 1, 3, - 4]" 4, THEN conjunct2]
      fitness_values_population3 valid_draws_fixed len fin
    by simp
qed

text \<open>
  Claim C2, as stated: the top \<open>\<lceil>r * N\<rceil>\<close> chromosomes are carried over as elites. With three
  chromosomes and ratio \<open>1/2\<close> that would be two; the slice \<^verbatim>\<open>[int(-3 * 0.5):]\<close> is \<^verbatim>\<open>[-1:]\<close>
  and keeps one, the chromosome scored \<open>3\<close>. The chromosome scored \<open>-1\<close>, second best, is
  not in the next generation. (The three scores differ, so the order of the indices does
  not depend on the sorting algorithm.)
\<close>

theorem evolve_pop_elite_count_not_ceiling:
  "evolve_pop argsort_stable draws_fixed population3 0 (1 / 2) catalog_notebook roll_zero10
       fitness_1 =
     Inr [[- 1, - 1, - 1, - 1], [- 1, - 1, - 1, - 1], [0, 0, 0, 0]] \<and>
   fitness_values fitness_1 catalog_notebook roll_zero10 population3 = Inr [- 1, 3, - 4] \<and>
   select_elites argsort_stable population3 (1 / 2) [- 1, 3, - 4] = [[0, 0, 0, 0]] \<and>
   nat \<lceil>(1 / 2 :: rat) * of_nat (length population3)\<rceil> = 2"
  by code_simp

text \<open>
  Claim C2, amended. Let \<open>p\<close> be the double product \<^verbatim>\<open>N * elite_ratio\<close> the code computes for a
  population of size \<open>N\<close>, finite and with \<open>\<lfloor>p\<rfloor> \<ge> 1\<close>. The elites are exactly \<open>k = min \<lfloor>p\<rfloor> N\<close>
  chromosomes, those at the last \<open>k\<close> indices of the ascending order \<^verbatim>\<open>np.argsort\<close> gives to
  the scores, whichever order it gives to equal scores: no chromosome left out scores
  higher than one kept. They are the last \<open>k\<close> entries of every population \<^verbatim>\<open>evolve_pop\<close>
  returns, unmodified.
\<close>

theorem evolve_pop_elites_top_floor:
  assumes "argsort_ok srt"
    and "1 \<le> \<lfloor>elite_product (length population) elite_ratio\<rfloor>"
    and "fitness_values fitness cat roll population = Inr fv"
    and "k = min (nat \<lfloor>elite_product (length population) elite_ratio\<rfloor>) (length population)"
    and "\<not> elite_cut_overflows (length population) elite_ratio"
  shows "select_elites srt population elite_ratio fv =
           map (\<lambda>i. population ! i) (drop (length population - k) (srt fv)) \<and>
         length (select_elites srt population elite_ratio fv) = k \<and>
         (\<forall>i\<in>set (take (length population - k) (srt fv)).
            \<forall>j\<in>set (drop (length population - k) (srt fv)). fv ! i \<le> fv ! j) \<and>
         (\<forall>pop'. evolve_pop srt rnd population mutation_rate elite_ratio cat roll fitness
                   = Inr pop'
            \<longrightarrow> drop (length population - k) pop'
                  = select_elites srt population elite_ratio fv)"
proof -
  let ?n = "length population"
  have len: "length fv = ?n" using assms(3) by (rule fitness_values_length)
  have lsrt: "length (srt fv) = ?n" using length_argsort [OF assms(1), of fv] len by simp
  have cut: "?n - nat \<lfloor>elite_product ?n elite_ratio\<rfloor> = ?n - k"
    unfolding assms(4) by linarith
  have sel: "select_elites srt population elite_ratio fv =
           map (\<lambda>i. population ! i) (drop (?n - k) (srt fv))"
    using select_elites_top [OF assms(1,2), of fv] by (simp only: len cut)
  have kn: "k \<le> ?n" unfolding assms(4) by simp
  have cnt: "length (select_elites srt population elite_ratio fv) = k"
    using kn by (simp add: sel lsrt)
  have top: "\<forall>i\<in>set (take (?n - k) (srt fv)). \<forall>j\<in>set (drop (?n - k) (srt fv)).
               fv ! i \<le> fv ! j"
    using sorted_argsort [OF assms(1), of fv] by (rule sorted_take_drop)
  have carried: "drop (?n - k) pop' = select_elites srt population elite_ratio fv"
    if run: "evolve_pop srt rnd population mutation_rate elite_ratio cat roll fitness = Inr pop'"
    for pop'
  proof -
    obtain cs where cs: "make_children rnd population mutation_rate
          (?n - length (select_elites srt population elite_ratio fv)) 0 = Inr cs"
      and pop': "pop' = cs @ select_elites srt population elite_ratio fv"
      using run assms(3) by (auto simp: evolve_pop_def Let_def split: sum.splits if_splits)
    have "length cs = ?n - k" using make_children_length [OF cs] cnt by simp
    then show ?thesis using pop' by simp
  qed
  show ?thesis using sel cnt top carried by blast
qed

theorem evolve_pop_elites_top_floor_witness:
  "select_elites argsort_stable population3 (round_double (2 / 3)) [- 1, 3, - 4]
     = [[2, 2, - 1, - 1], [0, 0, 0, 0]] \<and>
   length (select_elites argsort_stable population3 (round_double (2 / 3)) [- 1, 3, - 4]) = 2"
proof -
  have a: "argsort_stable [- 1, 3, - 4] = [2, 0, 1]" by code_simp
  have p: "\<lfloor>elite_product (length population3) (round_double (2 / 3))\<rfloor> = 2" by code_simp
  have h: "1 \<le> \<lfloor>elite_product (length population3) (round_double (2 / 3))\<rfloor>"
    "2 = min (nat \<lfloor>elite_product (length population3) (round_double (2 / 3))\<rfloor>)
           (length population3)"
    unfolding p by (simp_all add: population3_def)
  have fin: "\<not> elite_cut_overflows (length population3) (round_double (2 / 3))" by code_simp
  from evolve_pop_elites_top_floor [OF argsort_stable_ok h(1) fitness_values_population3 h(2) fin,
      of draws_fixed 0]
  show ?thesis by (simp add: a population3_def)
qed

lemma evolve_pop_all_elites:
  assumes "argsort_ok srt"
    and "0 \<le> elite_product (length population) elite_ratio"
    and "elite_product (length population) elite_ratio < 1"
    and "population \<noteq> []"
    and "fitness_values fitness cat roll population = Inr fv"
    and fin: "\<not> elite_cut_overflows (length population) elite_ratio"
  shows "select_elites srt population elite_ratio fv = map (\<lambda>i. population ! i) (srt fv) \<and>
         length population - length (select_elites srt population elite_ratio fv) = 0 \<and>
         evolve_pop srt rnd population mutation_rate elite_ratio cat roll fitness =
           Inr (map (\<lambda>i. population ! i) (srt fv)) \<and>
         mset (map (\<lambda>i. population ! i) (srt fv)) = mset population \<and>
         fitness_values fitness cat roll (map (\<lambda>i. population ! i) (srt fv)) =
           Inr (map (\<lambda>i. fv ! i) (srt fv)) \<and>
         sorted (map (\<lambda>i. fv ! i) (srt fv))"
proof -
  have len: "length fv = length population" using assms(5) by (rule fitness_values_length)
  have all: "select_elites srt population elite_ratio fv = map (\<lambda>i. population ! i) (srt fv)"
    using assms(2,3) by (rule select_elites_all)
  have none: "length population - length (select_elites srt population elite_ratio fv) = 0"
    by (simp add: all length_argsort [OF assms(1)] len)
  have "fv \<noteq> []" using len assms(4) by auto
  then have run: "evolve_pop srt rnd population mutation_rate elite_ratio cat roll fitness =
           Inr (map (\<lambda>i. population ! i) (srt fv))"
    using none fin by (simp add: evolve_pop_def assms(5) Let_def all)
  have idx: "\<forall>i\<in>set (srt fv). i < length population"
    by (simp add: set_argsort [OF assms(1)] len)
  show ?thesis
    using all none run mset_reordered [OF assms(1) len]
      fitness_values_reorder [OF assms(5) idx] sorted_argsort [OF assms(1), of fv]
    by simp
qed

text \<open>
  Claim C9, as stated: for every elite ratio with \<open>0 \<le> elite_ratio * N < 1\<close> the whole
  population is kept and no offspring is made. The code does not test this product but
  the double it computes for it. For the double nearest to \<open>1/3\<close>, which is below \<open>1/3\<close>, and
  three chromosomes, the exact product is below \<open>1\<close>, but the computed product is \<open>1.0\<close>:
  the slice \<^verbatim>\<open>[int(-1.0):]\<close> keeps one elite and two children are made. The chromosome
  \<open>[2, 2, -1, -1]\<close> of the population is not in the next generation.
\<close>

theorem evolve_pop_small_ratio_rounded_up:
  "round_double (1 / 3) = 6004799503160661 / 18014398509481984 \<and>
   (0 :: rat) \<le> 6004799503160661 / 18014398509481984 * of_nat (length population3) \<and>
   (6004799503160661 / 18014398509481984 :: rat) * of_nat (length population3) < 1 \<and>
   elite_product (length population3) (6004799503160661 / 18014398509481984) = 1 \<and>
   select_elites argsort_stable population3 (6004799503160661 / 18014398509481984) [- 1, 3, - 4]
     = [[0, 0, 0, 0]] \<and>
   evolve_pop argsort_stable draws_fixed population3 0 (6004799503160661 / 18014398509481984)
       catalog_notebook roll_zero10 fitness_1 =
     Inr [[- 1, - 1, - 1, - 1], [- 1, - 1, - 1, - 1], [0, 0, 0, 0]]"
  by code_simp

text \<open>
  Claim C9, amended. Let \<open>p\<close> be the double product \<^verbatim>\<open>N * elite_ratio\<close> the code computes. For
  \<open>0 \<le> p < 1\<close> the slice is \<^verbatim>\<open>[0:]\<close>: the whole population is selected as elites and no
  offspring is made. Every population \<^verbatim>\<open>evolve_pop\<close> returns for such a ratio is exactly the
  input chromosomes (the same multiset) in the ascending order \<^verbatim>\<open>np.argsort\<close> gives to
  their scores, whichever order it gives to equal scores, and whatever the random draws
  and the mutation rate are; and it returns it for every non-empty population on which
  the fitness evaluation succeeds (and whose size is a finite double, as that of every list
  is). The elite ratio \<open>0\<close> is such a ratio: its product is \<open>0\<close>.
\<close>

theorem evolve_pop_small_elite_ratio:
  assumes "argsort_ok srt"
    and "0 \<le> elite_product (length population) elite_ratio"
    and "elite_product (length population) elite_ratio < 1"
  shows "(\<forall>pop'. evolve_pop srt rnd population mutation_rate elite_ratio cat roll fitness
                   = Inr pop'
            \<longrightarrow> (\<exists>fv. fitness_values fitness cat roll population = Inr fv \<and>
                   select_elites srt population elite_ratio fv = pop' \<and>
                   length population - length (select_elites srt population elite_ratio fv) = 0 \<and>
                   pop' = map (\<lambda>i. population ! i) (srt fv) \<and>
                   mset pop' = mset population \<and>
                   fitness_values fitness cat roll pop' = Inr (map (\<lambda>i. fv ! i) (srt fv)) \<and>
                   sorted (map (\<lambda>i. fv ! i) (srt fv)))) \<and>
         (\<forall>fv. population \<noteq> [] \<and> fitness_values fitness cat roll population = Inr fv \<and>
               \<not> overflow (to_float (of_nat (length population)))
            \<longrightarrow> evolve_pop srt rnd population mutation_rate elite_ratio cat roll fitness =
                  Inr (map (\<lambda>i. population ! i) (srt fv)))"
proof (intro conjI allI impI)
  fix pop'
  assume run: "evolve_pop srt rnd population mutation_rate elite_ratio cat roll fitness
                 = Inr pop'"
  then obtain fv where fv: "fitness_values fitness cat roll population = Inr fv" and "fv \<noteq> []"
    by (auto simp: evolve_pop_def Let_def split: sum.splits if_splits)
  then have ne: "population \<noteq> []" using fitness_values_length [OF fv] by auto
  have fin: "\<not> elite_cut_overflows (length population) elite_ratio"
    using run fv by (auto simp: evolve_pop_def split: if_splits)
  note all = evolve_pop_all_elites [OF assms ne fv fin, of rnd mutation_rate]
  have eq: "pop' = map (\<lambda>i. population ! i) (srt fv)" using all run by simp
  show "\<exists>fv. fitness_values fitness cat roll population = Inr fv \<and>
                   select_elites srt population elite_ratio fv = pop' \<and>
                   length population - length (select_elites srt population elite_ratio fv) = 0 \<and>
                   pop' = map (\<lambda>i. population ! i) (srt fv) \<and>
                   mset pop' = mset population \<and>
                   fitness_values fitness cat roll pop' = Inr (map (\<lambda>i. fv ! i) (srt fv)) \<and>
                   sorted (map (\<lambda>i. fv ! i) (srt fv))"
  proof (intro exI [of _ fv] conjI)
    show "fitness_values fitness cat roll population = Inr fv" by (fact fv)
    show "select_elites srt population elite_ratio fv = pop'" unfolding eq using all by blast
    show "length population - length (select_elites srt population elite_ratio fv) = 0"
      using all by blast
    show "pop' = map (\<lambda>i. population ! i) (srt fv)" by (fact eq)
    show "mset pop' = mset population" unfolding eq using all by blast
    show "fitness_values fitness cat roll pop' = Inr (map (\<lambda>i. fv ! i) (srt fv))"
      unfolding eq using all by blast
    show "sorted (map (\<lambda>i. fv ! i) (srt fv))" using all by blast
  qed
next
  fix fv
  assume a: "population \<noteq> [] \<and> fitness_values fitness cat roll population = Inr fv \<and>
               \<not> overflow (to_float (of_nat (length population)))"
  have small: "\<not> overflow (float_mul (- of_nat (length population)) elite_ratio)"
  proof -
    have "\<bar>float_mul (- of_nat (length population)) elite_ratio\<bar> \<le> two_pow 0"
      using assms(2,3) by (simp add: float_mul_minus elite_product_def two_pow_zero)
    then show ?thesis by (rule not_overflow_le_pow) simp
  qed
  have fin: "\<not> elite_cut_overflows (length population) elite_ratio"
    using a small by (simp add: elite_cut_overflows_def)
  show "evolve_pop srt rnd population mutation_rate elite_ratio cat roll fitness =
                  Inr (map (\<lambda>i. population ! i) (srt fv))"
    using evolve_pop_all_elites [OF assms, of fitness cat roll fv rnd mutation_rate] a fin
    by simp
qed

theorem evolve_pop_small_elite_ratio_witness:
  "evolve_pop argsort_stable draws_fixed population3 (1 / 10) (1 / 4) catalog_notebook
       roll_zero10 fitness_1 =
     Inr [[- 1, - 1, - 1, - 1], [2, 2, - 1, - 1], [0, 0, 0, 0]] \<and>
   evolve_pop argsort_stable draws_fixed population3 (1 / 10) 0 catalog_notebook
       roll_zero10 fitness_1 =
     Inr [[- 1, - 1, - 1, - 1], [2, 2, - 1, - 1], [0, 0, 0, 0]]"
proof -
  have a: "argsort_stable [- 1, 3, - 4] = [2, 0, 1]" by code_simp
  have p: "elite_product (length population3) (1 / 4) = 3 / 4" by code_simp
  have b: "0 \<le> elite_product (length population3) (1 / 4)"
    "elite_product (length population3) (1 / 4) < 1"
    unfolding p by simp_all
  have z: "0 \<le> elite_product (length population3) 0"
    "elite_product (length population3) 0 < 1"
    by (simp_all add: elite_product_zero)
  have n: "\<not> overflow (to_float (of_nat (length population3)))" by code_simp
  have h: "population3 \<noteq> [] \<and>
      fitness_values fitness_1 catalog_notebook roll_zero10 population3 = Inr [- 1, 3, - 4] \<and>
      \<not> overflow (to_float (of_nat (length population3)))"
    using fitness_values_population3 n by (simp add: population3_def)
  have "evolve_pop argsort_stable draws_fixed population3 (1 / 10) (1 / 4) catalog_notebook
          roll_zero10 fitness_1
          = Inr (map (\<lambda>i. population3 ! i) (argsort_stable [- 1, 3, - 4]))"
    using evolve_pop_small_elite_ratio [OF argsort_stable_ok b, of draws_fixed "1 / 10"
        catalog_notebook roll_zero10 fitness_1] h
    by blast
  moreover have "evolve_pop argsort_stable draws_fixed population3 (1 / 10) 0 catalog_notebook
          roll_zero10 fitness_1
          = Inr (map (\<lambda>i. population3 ! i) (argsort_stable [- 1, 3, - 4]))"
    using evolve_pop_small_elite_ratio [OF argsort_stable_ok z, of draws_fixed "1 / 10"
        catalog_notebook roll_zero10 fitness_1] h
    by blast
  ultimately show ?thesis by (simp add: a population3_def)
qed

section \<open>Properties of the defect check\<close>

lemma counts_abc_update:
  "(counts_abc x y z)(''a'' \<mapsto> v) = counts_abc v y z"
  "(counts_abc x y z)(''b'' \<mapsto> v) = counts_abc x v z"
  "(counts_abc x y z)(''c'' \<mapsto> v) = counts_abc x y v"
  by (auto simp: counts_abc_def fun_eq_iff)

lemma counts_abc_lookup:
  "counts_abc x y z ''a'' = Some x" "counts_abc x y z ''b'' = Some y" "counts_abc x y z ''c'' = Some z"
  "k \<noteq> ''a'' \<Longrightarrow> k \<noteq> ''b'' \<Longrightarrow> k \<noteq> ''c'' \<Longrightarrow> counts_abc x y z k = None"
  by (simp_all add: counts_abc_def)

lemma add_defects_counts:
  "add_defects (counts_abc x y z) d =
     (if known_classes d
      then Inr (counts_abc (x + class_count ''a'' d) (y + class_count ''b'' d) (z + class_count ''c'' d))
      else Inl KeyError)"
proof (induction d arbitrary: x y z)
  case Nil
  show ?case by (simp add: known_classes_def class_count_def)
next
  case (Cons e rest)
  obtain k n where e: "e = (k, n)" by (cases e)
  have IH: "\<And>x y z. add_defects (counts_abc x y z) rest =
     (if known_classes rest
      then Inr (counts_abc (x + class_count ''a'' rest) (y + class_count ''b'' rest) (z + class_count ''c'' rest))
      else Inl KeyError)" by (rule Cons.IH)
  consider "k = ''a''" | "k = ''b''" | "k = ''c''" | "k \<noteq> ''a''" "k \<noteq> ''b''" "k \<noteq> ''c''"
    by blast
  then show ?case
  proof cases
    case 1
    then show ?thesis
      by (simp add: e counts_abc_lookup counts_abc_update IH known_classes_def class_count_def algebra_simps)
  next
    case 2
    then show ?thesis
      by (simp add: e counts_abc_lookup counts_abc_update IH known_classes_def class_count_def algebra_simps)
  next
    case 3
    then show ?thesis
      by (simp add: e counts_abc_lookup counts_abc_update IH known_classes_def class_count_def algebra_simps)
  next
    case 4
    then show ?thesis
      by (simp add: e counts_abc_lookup known_classes_def)
  qed
qed

lemma sum_defects_counts:
  "sum_defects (counts_abc x y z) ps roll =
     (if list_all (\<lambda>pos. case roll pos of None \<Rightarrow> False | Some d \<Rightarrow> known_classes d) ps
      then Inr (counts_abc
        (x + sum_list (map (\<lambda>pos. case roll pos of None \<Rightarrow> 0 | Some d \<Rightarrow> class_count ''a'' d) ps))
        (y + sum_list (map (\<lambda>pos. case roll pos of None \<Rightarrow> 0 | Some d \<Rightarrow> class_count ''b'' d) ps))
        (z + sum_list (map (\<lambda>pos. case roll pos of None \<Rightarrow> 0 | Some d \<Rightarrow> class_count ''c'' d) ps)))
      else Inl KeyError)"
proof (induction ps arbitrary: x y z)
  case Nil
  show ?case by simp
next
  case (Cons pos ps)
  show ?case
  proof (cases "roll pos")
    case None
    then show ?thesis by simp
  next
    case (Some d)
    then show ?thesis
      by (simp add: add_defects_counts Cons.IH algebra_simps)
  qed
qed

lemma respect_defects_spec:
  "respect_defects th start end roll =
     (if range_well_formed roll start end
      then all_within th
             (counts_abc (class_total ''a'' roll start end) (class_total ''b'' roll start end)
                  (class_total ''c'' roll start end))
             [''a'', ''b'', ''c'']
      else Inl KeyError)"
proof -
  have z: "zero_defects = counts_abc 0 0 0" by (simp add: zero_defects_def counts_abc_def)
  show ?thesis
    unfolding respect_defects_def z sum_defects_counts range_well_formed_def class_total_def
    by simp
qed




section \<open>Properties of the Evolution Driver\<close>

lemma select_elites_product_ge_size:
  assumes "argsort_ok srt" and "int (length pop) \<le> \<lfloor>elite_product (length pop) er\<rfloor>"
    and "pop \<noteq> []" and "length fv = length pop"
  shows "select_elites srt pop er fv = map (\<lambda>i. pop ! i) (srt fv)"
proof -
  have "1 \<le> int (length pop)" using assms(3) by (cases pop) simp_all
  then have one: "1 \<le> \<lfloor>elite_product (length pop) er\<rfloor>" using assms(2) by linarith
  show ?thesis
    using select_elites_top [OF assms(1) one, of fv] assms(2,4) by simp
qed

lemma evolve_pop_no_offspring:
  assumes "select_elites srt pop er fv = map (\<lambda>i. pop ! i) (srt fv)"
    and "pop \<noteq> []" and "fitness_values f cat roll pop = Inr fv"
    and ok: "argsort_ok srt"
    and fin: "\<not> elite_cut_overflows (length pop) er"
  shows "evolve_pop srt rnd pop mr er cat roll f = Inr (map (\<lambda>i. pop ! i) (srt fv))"
proof -
  have len: "length fv = length pop" using assms(3) by (rule fitness_values_length)
  then have "fv \<noteq> []" using assms(2) by auto
  then show ?thesis
    using fin by (simp add: evolve_pop_def assms(3) Let_def assms(1) length_argsort [OF ok] len)
qed

lemma best_index_total:
  assumes "argsort_ok srt" and ne: "fv \<noteq> []"
  shows "best_index srt fv = Inr (last (srt fv)) \<and> last (srt fv) < length fv"
proof -
  have a: "srt fv \<noteq> []" using ne length_argsort [OF assms(1), of fv] by auto
  then have "last (srt fv) \<in> set (srt fv)" by simp
  then have "last (srt fv) < length fv" by (simp add: set_argsort [OF assms(1)])
  moreover have "best_index srt fv = Inr (last (srt fv))"
    using a by (simp add: best_index_def split: list.splits)
  ultimately show ?thesis by simp
qed

lemma report_total:
  assumes "pop \<noteq> []" and "fitness_values f cat roll pop = Inr fv" and ok: "argsort_ok srt"
  shows "report srt display g pop cat roll f = Inr ()"
proof -
  have "fv \<noteq> []" using fitness_values_length [OF assms(2)] assms(1) by auto
  then show ?thesis
    using best_index_total [OF ok, of fv] by (simp add: report_def assms(2) split: option.splits)
qed

lemma generations_all_elite:
  assumes ok: "argsort_ok srt"
    and "(0 \<le> elite_product (length pop) er \<and> elite_product (length pop) er < 1) \<or>
         int (length pop) \<le> \<lfloor>elite_product (length pop) er\<rfloor>"
    and "pop \<noteq> []" and "\<forall>c\<in>set pop. \<exists>s. f c cat roll = Inr s"
    and "\<not> elite_cut_overflows (length pop) er"
  shows "\<exists>pop'. generations srt rnd mr er cat roll display f todo i pop = Inr pop' \<and>
           mset pop' = mset pop"
  using assms(2,3,4,5)
proof (induction todo arbitrary: i pop)
  case 0
  show ?case by simp
next
  case (Suc todo)
  obtain fv where fv: "fitness_values f cat roll pop = Inr fv"
    using fitness_values_total [of pop f cat roll] Suc.prems(3) by blast
  have len: "length fv = length pop" using fv by (rule fitness_values_length)
  let ?pop' = "map (\<lambda>i. pop ! i) (srt fv)"
  have sel: "select_elites srt pop er fv = ?pop'"
  proof (cases "int (length pop) \<le> \<lfloor>elite_product (length pop) er\<rfloor>")
    case True
    with ok show ?thesis using Suc.prems(2) len by (rule select_elites_product_ge_size)
  next
    case False
    then have "0 \<le> elite_product (length pop) er" "elite_product (length pop) er < 1"
      using Suc.prems(1) by simp_all
    then show ?thesis by (rule select_elites_all)
  qed
  have step: "evolve_pop srt (rnd i) pop mr er cat roll f = Inr ?pop'"
    using sel Suc.prems(2) fv ok Suc.prems(4) by (rule evolve_pop_no_offspring)
  have ms: "mset ?pop' = mset pop" using ok len by (rule mset_reordered)
  then have same: "set ?pop' = set pop" and size: "length ?pop' = length pop"
    by (metis set_mset_mset, metis size_mset)
  have ne: "?pop' \<noteq> []" using size Suc.prems(2) by auto
  have evals: "\<forall>c\<in>set ?pop'. \<exists>s. f c cat roll = Inr s" using Suc.prems(3) unfolding same .
  obtain fv' where fv': "fitness_values f cat roll ?pop' = Inr fv'"
    using fitness_values_total [of ?pop' f cat roll] evals by blast
  have rep: "report srt display (Suc i) ?pop' cat roll f = Inr ()"
    using ne fv' ok by (rule report_total)
  have ratio: "(0 \<le> elite_product (length ?pop') er \<and> elite_product (length ?pop') er < 1) \<or>
         int (length ?pop') \<le> \<lfloor>elite_product (length ?pop') er\<rfloor>"
    using Suc.prems(1) unfolding size .
  have fin: "\<not> elite_cut_overflows (length ?pop') er" using Suc.prems(4) unfolding size .
  obtain final where "generations srt rnd mr er cat roll display f todo (Suc i) ?pop' = Inr final"
      "mset final = mset ?pop'"
    using Suc.IH [OF ratio ne evals fin] by blast
  then show ?case using step rep ms by simp
qed

lemma genetic_algorithm_all_elite:
  assumes "population \<noteq> []" and "\<forall>c\<in>set population. \<exists>s. fitness c cat roll = Inr s"
    and "(0 \<le> elite_product (length population) elite_ratio \<and>
          elite_product (length population) elite_ratio < 1) \<or>
         int (length population) \<le> \<lfloor>elite_product (length population) elite_ratio\<rfloor>"
    and ok: "argsort_ok srt"
    and fin: "\<not> elite_cut_overflows (length population) elite_ratio"
  shows "\<exists>result. genetic_algorithm srt rnd pop_size mutation_rate elite_ratio cat roll roll_size
            max_iter display fitness (Some population) rtype = Inr result \<and>
          result \<noteq> [] \<and> set result \<subseteq> set population"
proof -
  obtain final where gen: "generations srt (gen_draws rnd) mutation_rate elite_ratio cat roll display
        fitness (nat max_iter) 0 population = Inr final" and ms: "mset final = mset population"
    using generations_all_elite [of srt population elite_ratio fitness cat roll "gen_draws rnd"
        mutation_rate display "nat max_iter" 0] assms by blast
  have same: "set final = set population" and size: "length final = length population"
    using ms by (metis set_mset_mset, metis size_mset)
  have ne: "final \<noteq> []" using size assms(1) by auto
  show ?thesis
  proof (cases "rtype \<noteq> ''population''")
    case False
    then show ?thesis using gen ne same by (simp add: genetic_algorithm_def)
  next
    case True
    have evals: "\<forall>c\<in>set final. \<exists>s. fitness c cat roll = Inr s" using assms(2) unfolding same .
    obtain fv where fv: "fitness_values fitness cat roll final = Inr fv"
      using fitness_values_total [of final fitness cat roll] evals by blast
    have len: "length fv = length final" using fv by (rule fitness_values_length)
    then have "fv \<noteq> []" using ne by auto
    then have best: "best_index srt fv = Inr (last (srt fv))" "last (srt fv) < length final"
      using best_index_total [OF ok, of fv] len by simp_all
    then have "final ! last (srt fv) \<in> set population"
      using same nth_mem by blast
    then show ?thesis using True gen fv best by (simp add: genetic_algorithm_def)
  qed
qed

text \<open>
  The genes stay identifiers from \<open>-1\<close> to \<open>3\<close> through crossover and mutation, so a fitness
  evaluator that succeeds on every such chromosome of the strip length succeeds in every
  generation.
\<close>

lemma cross_segments_genes:
  assumes "sorted bps" and "bps \<noteq> []" and "\<forall>b\<in>set bps. b \<le> n"
    and "length child = n" and "length p1 = n" and "length p2 = n"
    and "set p1 \<subseteq> G" and "set p2 \<subseteq> G" and "set (take (hd bps) child) \<subseteq> G"
  shows "\<exists>c. cross_segments child p1 p2 bps flip i = Inr c \<and> length c = n \<and>
             set (take (last bps) c) \<subseteq> G"
  using assms(1,2,3,4,9)
proof (induction bps arbitrary: child i)
  case Nil
  then show ?case by simp
next
  case (Cons s rest)
  show ?case
  proof (cases rest)
    case Nil
    with Cons.prems show ?thesis by simp
  next
    case (Cons e bps')
    let ?src = "if flip i < 1 / 2 then p1 else p2"
    have se: "s \<le> e" and en: "e \<le> n"
      using Cons.prems(1,3) Cons by auto
    have src: "length ?src = n" "set ?src \<subseteq> G" using assms(5,6,7,8) by simp_all
    define child' where "child' = take s child @ take (e - s) (drop s ?src) @ drop e child"
    have step: "slice_assign child s e ?src = Inr child'"
      unfolding child'_def using se en Cons.prems(4) src(1)
      by (intro slice_assign_in_range) simp_all
    have len': "length child' = n"
      using se en Cons.prems(4) src(1) by (simp add: child'_def)
    have "take e child' = take s child @ take (e - s) (drop s ?src)"
      using se en Cons.prems(4) src(1) by (simp add: child'_def)
    moreover have "set (take (e - s) (drop s ?src)) \<subseteq> G"
      using src(2) by (meson set_take_subset set_drop_subset subset_trans)
    ultimately have pre': "set (take (hd rest) child') \<subseteq> G"
      using Cons.prems(5) Cons by simp
    have "\<exists>c. cross_segments child' p1 p2 rest flip (Suc i) = Inr c \<and> length c = n \<and>
             set (take (last rest) c) \<subseteq> G"
      using Cons.IH [OF _ _ _ len' pre'] Cons.prems(1,3) Cons by simp
    then show ?thesis
      using step Cons by simp
  qed
qed

lemma crossover_genes:
  assumes "b1 < length p1" and "b2 < length p1" and "b3 < length p1"
    and "length p2 = length p1" and "set p1 \<subseteq> G" and "set p2 \<subseteq> G"
  shows "\<exists>c. crossover p1 p2 (b1, b2, b3) flip = Inr c \<and> length c = length p1 \<and> set c \<subseteq> G"
proof -
  let ?bps = "sort [0, length p1, b1, b2, b3]"
  have le: "b1 \<le> length p1" "b2 \<le> length p1" "b3 \<le> length p1" using assms by simp_all
  note bp = sorted_break_points [OF le]
  obtain c where c: "cross_segments (replicate (length p1) 0) p1 p2 ?bps flip 0 = Inr c"
      "length c = length p1" "set (take (last ?bps) c) \<subseteq> G"
    using cross_segments_genes [OF bp(1) bp(2) bp(3) _ _ assms(4) assms(5,6),
        of "replicate (length p1) 0" flip 0]
    unfolding bp(4) by auto
  have "set c \<subseteq> G" using c(2,3) unfolding bp(5) by simp
  then show ?thesis using c(1,2) by (simp only: crossover_def prod.case) simp
qed

lemma mutation_genes:
  assumes "set c \<subseteq> G" and "\<forall>g. r g \<in> G"
  shows "set (mutation u r mr g0 c) \<subseteq> G"
  using assms(1) by (induction c arbitrary: g0) (use assms(2) in auto)

lemma catalog_genes_set: "catalog_genes c \<longleftrightarrow> set c \<subseteq> {- 1..3}"
  by (auto simp: catalog_genes_def list_all_iff)

lemma make_child_genes:
  assumes "2 \<le> length pop" and "valid_draws (length pop) len d"
    and "\<forall>c\<in>set pop. length c = len \<and> catalog_genes c" and "3 \<le> len"
  shows "\<exists>c. make_child d pop mr = Inr c \<and> length c = len \<and> catalog_genes c"
proof -
  obtain p1 p2 b1 b2 b3 where d: "parents_indices d = (p1, p2)" "break_points d = (b1, b2, b3)"
    by (metis prod.exhaust)
  have v: "p1 < length pop" "p2 < length pop" "b1 < len" "b2 < len" "b3 < len"
    "\<forall>g. mut_int d g \<in> {- 1..3}"
    using assms(2) by (simp_all add: valid_draws_def d)
  have l1: "length (pop ! p1) = len" "set (pop ! p1) \<subseteq> {- 1..3}"
    and l2: "length (pop ! p2) = len" "set (pop ! p2) \<subseteq> {- 1..3}"
    using assms(3) v(1,2) by (simp_all add: catalog_genes_set)
  obtain c where c: "crossover (pop ! p1) (pop ! p2) (b1, b2, b3) (coin d) = Inr c"
      "length c = len" "set c \<subseteq> {- 1..3}"
    using crossover_genes [of b1 "pop ! p1" b2 b3 "pop ! p2" "{- 1..3}" "coin d"] v l1 l2 by auto
  have "catalog_genes (mutation (mut_u d) (mut_int d) mr 0 c)"
    unfolding catalog_genes_set using c(3) v(6) by (rule mutation_genes)
  then show ?thesis
    using assms(1,4) c l1 by (simp add: make_child_def d Let_def length_mutation)
qed

lemma make_children_genes:
  assumes "2 \<le> length pop \<or> todo = 0" and "\<forall>k. valid_draws (length pop) len (rnd k)"
    and "\<forall>c\<in>set pop. length c = len \<and> catalog_genes c" and "3 \<le> len"
  shows "\<exists>cs. make_children rnd pop mr todo k = Inr cs \<and> length cs = todo \<and>
              (\<forall>c\<in>set cs. length c = len \<and> catalog_genes c)"
  using assms(1)
proof (induction todo arbitrary: k)
  case 0
  show ?case by simp
next
  case (Suc todo)
  then have two: "2 \<le> length pop" by simp
  obtain c where c: "make_child (rnd k) pop mr = Inr c" "length c = len" "catalog_genes c"
    using make_child_genes [OF two _ assms(3,4), of "rnd k" mr] assms(2) by auto
  obtain cs where cs: "make_children rnd pop mr todo (Suc k) = Inr cs" "length cs = todo"
      "\<forall>c\<in>set cs. length c = len \<and> catalog_genes c"
    using Suc.IH two by auto
  show ?case using c cs by simp
qed

lemma select_elites_subset:
  assumes "argsort_ok srt" and "length fv = length pop"
  shows "set (select_elites srt pop er fv) \<subseteq> set pop"
proof -
  have "set (elite_idx srt pop er fv) \<subseteq> set (srt fv)"
    by (simp add: elite_idx_def slice_from_def set_drop_subset)
  then have "\<forall>i\<in>set (elite_idx srt pop er fv). i < length pop"
    using assms(2) by (auto simp: set_argsort [OF assms(1)])
  then show ?thesis by (auto simp: select_elites_def)
qed

lemma evolve_pop_genes:
  assumes "pop \<noteq> []" and "0 \<le> er" and "fitness_values f cat roll pop = Inr fv"
    and "\<forall>c\<in>set pop. length c = len \<and> catalog_genes c" and "3 \<le> len"
    and "\<forall>k. valid_draws (length pop) len (rnd k)"
    and ok: "argsort_ok srt"
    and fin: "\<not> elite_cut_overflows (length pop) er"
  shows "\<exists>pop'. evolve_pop srt rnd pop mr er cat roll f = Inr pop' \<and> length pop' = length pop \<and>
           (\<forall>c\<in>set pop'. length c = len \<and> catalog_genes c)"
proof -
  let ?elites = "select_elites srt pop er fv"
  have len: "length fv = length pop" using assms(3) by (rule fitness_values_length)
  have e1: "1 \<le> length ?elites" using ok assms(2,1) len by (rule elites_nonempty)
  have e2: "length ?elites \<le> length pop"
    using length_select_elites [OF ok, of pop er fv] len by simp
  have e3: "set ?elites \<subseteq> set pop" using ok len by (rule select_elites_subset)
  have "2 \<le> length pop \<or> length pop - length ?elites = 0" using e1 by linarith
  then obtain cs where cs: "make_children rnd pop mr (length pop - length ?elites) 0 = Inr cs"
      "length cs = length pop - length ?elites" "\<forall>c\<in>set cs. length c = len \<and> catalog_genes c"
    using make_children_genes [OF _ assms(6,4,5), of "length pop - length ?elites" mr 0] by auto
  have "fv \<noteq> []" using len assms(1) by auto
  then have "evolve_pop srt rnd pop mr er cat roll f = Inr (cs @ ?elites)"
    using cs(1) fin by (simp add: evolve_pop_def assms(3) Let_def)
  moreover have "length (cs @ ?elites) = length pop" using cs(2) e2 by simp
  moreover have "\<forall>c\<in>set (cs @ ?elites). length c = len \<and> catalog_genes c"
    using cs(3) e3 assms(4) by auto
  ultimately show ?thesis by blast
qed

lemma generations_total:
  assumes "0 \<le> er" and "3 \<le> len" and "\<forall>i k. valid_draws n len (rnd i k)"
    and "\<forall>c. length c = len \<and> catalog_genes c \<longrightarrow> (\<exists>s. f c cat roll = Inr s)"
    and "pop \<noteq> []" and "length pop = n" and "\<forall>c\<in>set pop. length c = len \<and> catalog_genes c"
    and ok: "argsort_ok srt"
    and fin: "\<not> elite_cut_overflows n er"
  shows "\<exists>final. generations srt rnd mr er cat roll display f todo i pop = Inr final \<and>
           length final = n \<and> (\<forall>c\<in>set final. length c = len \<and> catalog_genes c)"
  using assms(5,6,7)
proof (induction todo arbitrary: i pop)
  case 0
  then show ?case by simp
next
  case (Suc todo)
  have "\<forall>c\<in>set pop. \<exists>s. f c cat roll = Inr s" using Suc.prems(3) assms(4) by blast
  then obtain fv where fv: "fitness_values f cat roll pop = Inr fv"
    using fitness_values_total [of pop f cat roll] by blast
  have draws: "\<forall>k. valid_draws (length pop) len (rnd i k)" using assms(3) Suc.prems(2) by simp
  have fin': "\<not> elite_cut_overflows (length pop) er" using fin Suc.prems(2) by simp
  obtain pop' where step: "evolve_pop srt (rnd i) pop mr er cat roll f = Inr pop'"
      and size: "length pop' = length pop"
      and wf: "\<forall>c\<in>set pop'. length c = len \<and> catalog_genes c"
    using evolve_pop_genes [OF Suc.prems(1) assms(1) fv Suc.prems(3) assms(2) draws ok fin',
        of mr]
    by blast
  have ne: "pop' \<noteq> []" using size Suc.prems(1) by auto
  have "\<forall>c\<in>set pop'. \<exists>s. f c cat roll = Inr s" using wf assms(4) by blast
  then obtain fv' where fv': "fitness_values f cat roll pop' = Inr fv'"
    using fitness_values_total [of pop' f cat roll] by blast
  have rep: "report srt display (Suc i) pop' cat roll f = Inr ()"
    using ne fv' ok by (rule report_total)
  have n': "length pop' = n" using size Suc.prems(2) by simp
  obtain final where "generations srt rnd mr er cat roll display f todo (Suc i) pop' = Inr final"
      "length final = n" "\<forall>c\<in>set final. length c = len \<and> catalog_genes c"
    using Suc.IH [OF ne n' wf] by blast
  then show ?case using step rep by simp
qed

lemma genetic_algorithm_total:
  assumes "population \<noteq> []" and "0 \<le> elite_ratio" and "3 \<le> len"
    and "\<forall>c\<in>set population. length c = len \<and> catalog_genes c"
    and "\<forall>c. length c = len \<and> catalog_genes c \<longrightarrow> (\<exists>s. fitness c cat roll = Inr s)"
    and "\<forall>i k. valid_draws (length population) len (gen_draws rnd i k)"
    and ok: "argsort_ok srt"
    and fin: "\<not> elite_cut_overflows (length population) elite_ratio"
  shows "\<exists>result. genetic_algorithm srt rnd pop_size mutation_rate elite_ratio cat roll roll_size
            max_iter display fitness (Some population) rtype = Inr result \<and>
          length result = (if rtype \<noteq> ''population'' then 1 else length population) \<and>
          (\<forall>c\<in>set result. length c = len \<and> catalog_genes c)"
proof -
  obtain final where gen: "generations srt (gen_draws rnd) mutation_rate elite_ratio cat roll display
        fitness (nat max_iter) 0 population = Inr final"
    and size: "length final = length population"
    and wf: "\<forall>c\<in>set final. length c = len \<and> catalog_genes c"
    using generations_total [of elite_ratio len "length population" "gen_draws rnd" fitness cat
        roll population srt mutation_rate display "nat max_iter" 0,
        OF assms(2,3,6,5,1) refl assms(4) ok fin]
    by blast
  have ne: "final \<noteq> []" using size assms(1) by auto
  show ?thesis
  proof (cases "rtype \<noteq> ''population''")
    case False
    then show ?thesis using gen size wf by (simp add: genetic_algorithm_def)
  next
    case True
    have "\<forall>c\<in>set final. \<exists>s. fitness c cat roll = Inr s" using wf assms(5) by blast
    then obtain fv where fv: "fitness_values fitness cat roll final = Inr fv"
      using fitness_values_total [of final fitness cat roll] by blast
    have len: "length fv = length final" using fv by (rule fitness_values_length)
    then have "fv \<noteq> []" using ne by auto
    then have best: "best_index srt fv = Inr (last (srt fv))" "last (srt fv) < length final"
      using best_index_total [OF ok, of fv] len by simp_all
    then have "length (final ! last (srt fv)) = len \<and> catalog_genes (final ! last (srt fv))"
      using wf nth_mem by blast
    then show ?thesis using True gen fv best by (simp add: genetic_algorithm_def)
  qed
qed

lemma respect_defects_total:
  assumes "\<forall>pos. start \<le> pos \<and> pos < end \<longrightarrow> (\<exists>d. roll pos = Some d \<and> known_classes d)"
    and "th ''a'' \<noteq> None" and "th ''b'' \<noteq> None" and "th ''c'' \<noteq> None"
  shows "\<exists>ok. respect_defects th start end roll = Inr ok"
proof -
  have "range_well_formed roll start end"
    using assms(1) by (auto simp: range_well_formed_def list_all_iff)
  then show ?thesis
    using assms(2,3,4) by (auto simp: respect_defects_spec counts_abc_lookup)
qed

lemma fitness_1_loop_total:
  assumes cat: "\<forall>g. 0 \<le> g \<and> g \<le> 3 \<longrightarrow>
        (\<exists>b. cat g = Some b \<and> b_threshold b ''a'' \<noteq> None \<and> b_threshold b ''b'' \<noteq> None \<and>
              b_threshold b ''c'' \<noteq> None)"
    and roll: "\<forall>pos. 0 \<le> pos \<and> pos < int n \<longrightarrow> (\<exists>d. roll pos = Some d \<and> known_classes d)"
  shows "catalog_genes rest \<Longrightarrow> sz \<le> i \<Longrightarrow> i + length rest \<le> n \<Longrightarrow>
           \<exists>r. fitness_1_loop cat roll i rest score sz last_elem = Inr r"
proof (induction rest arbitrary: i score sz last_elem)
  case Nil
  show ?case by simp
next
  case (Cons elem rest)
  have genes: "catalog_genes rest" and g: "- 1 \<le> elem" "elem \<le> 3"
    using Cons.prems(1) by (simp_all add: catalog_genes_def)
  have bound: "Suc i + length rest \<le> n" using Cons.prems(3) by simp
  note IH = Cons.IH [OF genes _ bound]
  show ?case
  proof (cases "elem = - 1")
    case True
    then show ?thesis using IH [of 0] by simp
  next
    case False
    then have "0 \<le> elem" using g(1) by simp
    then obtain b where b: "cat elem = Some b" "b_threshold b ''a'' \<noteq> None"
        "b_threshold b ''b'' \<noteq> None" "b_threshold b ''c'' \<noteq> None"
      using cat g(2) by blast
    define sz1 where "sz1 = (if elem \<noteq> last_elem then 1 else sz + 1)"
    define score1 where "score1 = (if elem \<noteq> last_elem then score - of_nat sz else score)"
    have sz1: "1 \<le> sz1" "sz1 \<le> Suc i" using Cons.prems(2) by (simp_all add: sz1_def)
    have "\<forall>pos. int i - int sz1 + 1 \<le> pos \<and> pos < int i + 1 \<longrightarrow>
            (\<exists>d. roll pos = Some d \<and> known_classes d)"
      using roll sz1 Cons.prems(3) by auto
    then obtain ok where ok: "respect_defects (b_threshold b) (int i - int sz1 + 1) (int i + 1) roll
          = Inr ok"
      using respect_defects_total [OF _ b(2,3,4)] by blast
    show ?thesis
    proof (cases "sz1 = b_size b")
      case True
      then have ok': "respect_defects (b_threshold b) (int i - int (b_size b) + 1) (int i + 1) roll
          = Inr ok" using ok by simp
      have "fitness_1_loop cat roll i (elem # rest) score sz last_elem =
        (if ok then fitness_1_loop cat roll (Suc i) rest (score1 + b_value b) 0 elem
         else fitness_1_loop cat roll (Suc i) rest (score1 - 1) (sz1 - 1) elem)"
        using \<open>elem \<noteq> - 1\<close> b(1) ok' True
        by (simp add: sz1_def [symmetric] score1_def [symmetric] Let_def)
      then show ?thesis using IH [of 0] IH [of "sz1 - 1"] sz1 by auto
    next
      case False
      have "fitness_1_loop cat roll i (elem # rest) score sz last_elem =
          fitness_1_loop cat roll (Suc i) rest score1 sz1 elem"
        using \<open>elem \<noteq> - 1\<close> b(1) False
        by (simp add: sz1_def [symmetric] score1_def [symmetric] Let_def)
      then show ?thesis using IH [of sz1] sz1 by auto
    qed
  qed
qed

lemma fitness_1_total:
  assumes "\<forall>g. 0 \<le> g \<and> g \<le> 3 \<longrightarrow>
        (\<exists>b. cat g = Some b \<and> b_threshold b ''a'' \<noteq> None \<and> b_threshold b ''b'' \<noteq> None \<and>
              b_threshold b ''c'' \<noteq> None)"
    and "\<forall>pos. 0 \<le> pos \<and> pos < int (length ind) \<longrightarrow> (\<exists>d. roll pos = Some d \<and> known_classes d)"
    and "catalog_genes ind"
  shows "\<exists>s. fitness_1 ind cat roll = Inr s"
proof -
  obtain r where "fitness_1_loop cat roll 0 ind 0 0 (- 2) = Inr r"
    using fitness_1_loop_total [OF assms(1,2,3), of 0 0 0 "- 2"] by auto
  then show ?thesis by (cases r) (simp add: fitness_1_def)
qed

lemma fitness_1_notebook_total:
  assumes "length c = 4" and "catalog_genes c"
  shows "\<exists>s. fitness_1 c catalog_notebook roll_zero10 = Inr s"
proof (rule fitness_1_total [OF _ _ assms(2)])
  show "\<forall>g. 0 \<le> g \<and> g \<le> 3 \<longrightarrow>
        (\<exists>b. catalog_notebook g = Some b \<and> b_threshold b ''a'' \<noteq> None \<and>
              b_threshold b ''b'' \<noteq> None \<and> b_threshold b ''c'' \<noteq> None)"
  proof (intro allI impI)
    fix g :: int
    assume "0 \<le> g \<and> g \<le> 3"
    then consider "g = 0" | "g = 1" | "g = 2" | "g = 3" by linarith
    then show "\<exists>b. catalog_notebook g = Some b \<and> b_threshold b ''a'' \<noteq> None \<and>
              b_threshold b ''b'' \<noteq> None \<and> b_threshold b ''c'' \<noteq> None"
      by cases (simp_all add: catalog_notebook_def)
  qed
  show "\<forall>pos. 0 \<le> pos \<and> pos < int (length c) \<longrightarrow>
          (\<exists>d. roll_zero10 pos = Some d \<and> known_classes d)"
    using assms(1) by (simp add: roll_zero10_def known_classes_def)
qed

lemma fitness_1_population3_total:
  "\<forall>c\<in>set population3. \<exists>s. fitness_1 c catalog_notebook roll_zero10 = Inr s"
proof -
  have "fitness_1 [2, 2, - 1, - 1] catalog_notebook roll_zero10 = Inr (- 1)"
    "fitness_1 [0, 0, 0, 0] catalog_notebook roll_zero10 = Inr 3"
    "fitness_1 [- 1, - 1, - 1, - 1] catalog_notebook roll_zero10 = Inr (- 4)"
    by code_simp+
  then show ?thesis by (simp add: population3_def)
qed

text \<open>
  Claim C3, as stated: every invalid configuration is rejected with an error before any
  generation is evolved. The driver checks nothing. With population size \<open>0\<close>, mutation rate
  \<open>2\<close>, elite ratio \<open>1\<close> (no offspring slot), strip length \<open>-1\<close> and a supplied population of
  chromosomes of length four it evolves one generation and returns the best chromosome;
  with a generation count of \<open>-1\<close> it returns the best chromosome of the initial population;
  with mutation rate \<open>2\<close> it evolves a generation in which every gene of every child is
  replaced.
\<close>

theorem genetic_algorithm_accepts_invalid:
  "genetic_algorithm argsort_stable ga_draws_fixed 0 2 1 catalog_notebook roll_zero10 (- 1) 1
     None fitness_1 (Some population3) ''elite'' = Inr [[0, 0, 0, 0]] \<and>
   genetic_algorithm argsort_stable ga_draws_fixed 3 (1 / 10) (1 / 2) catalog_notebook
     roll_zero10 4 (- 1) None fitness_1 (Some population3) ''elite'' = Inr [[0, 0, 0, 0]] \<and>
   genetic_algorithm argsort_stable ga_draws_fixed 3 2 (1 / 2) catalog_notebook roll_zero10 4 1
     None fitness_1 (Some population3) ''population'' =
       Inr [[0, 0, 0, 0], [0, 0, 0, 0], [0, 0, 0, 0]]"
  by code_simp

text \<open>
  Claim C3, amended: the Evolution Driver does not validate its configuration, and an error
  reaches the caller only when an operation fails while the run proceeds. Let \<open>p\<close> be the
  double product \<^verbatim>\<open>N * elite_ratio\<close> the code computes for a population of size \<open>N\<close>.
  With a supplied, non-empty initial population the driver returns a result for every
  population size, mutation rate, strip length, generation count (a negative count runs no
  generation), reporting interval and result mode, in each of these two cases:
  the elite ratio leaves no offspring slot (\<open>p\<close> is finite and \<open>0 \<le> p < 1\<close> or \<open>\<lfloor>p\<rfloor> \<ge> N\<close>, as
  with every \<open>elite_ratio\<close> from \<open>1\<close> to \<open>2 ^ 53\<close> for \<open>N\<close> up to \<open>2 ^ 53\<close>) and the fitness evaluation
  succeeds on the population, the result being non-empty and made of chromosomes of that
  population;
  or \<open>elite_ratio \<ge> 0\<close>, \<open>p\<close> is finite, the chromosomes share a length of at least three and hold
  identifiers from \<open>-1\<close> to \<open>3\<close>, the fitness evaluation succeeds on every such chromosome
  and the draws are outcomes the random sources can produce, the result being one
  chromosome or, in whole-population mode, as many as the initial population.
  Without a supplied population, a population size \<open>\<le> 0\<close> gives an empty population: the
  first generation then fails with ValueError if the generation count is positive;
  otherwise the extraction of the best chromosome fails with IndexError, and the
  whole-population mode returns the empty population. A negative strip length with a
  positive population size fails with ValueError when the population is initialised.
  All this holds for every order \<^verbatim>\<open>np.argsort\<close> may give to equal scores.
\<close>

theorem genetic_algorithm_no_validation:
  assumes "argsort_ok srt"
  shows
  "(population \<noteq> [] \<and> (\<forall>c\<in>set population. \<exists>s. fitness c cat roll = Inr s) \<and>
    ((\<not> elite_cut_overflows (length population) elite_ratio \<and>
      ((0 \<le> elite_product (length population) elite_ratio \<and>
        elite_product (length population) elite_ratio < 1) \<or>
       int (length population) \<le> \<lfloor>elite_product (length population) elite_ratio\<rfloor>)) \<or>
     (1 \<le> elite_ratio \<and> elite_ratio \<le> 2 ^ 53 \<and> length population \<le> 2 ^ 53))
    \<longrightarrow> (\<exists>result. genetic_algorithm srt rnd pop_size mutation_rate elite_ratio cat roll
            roll_size max_iter display fitness (Some population) rtype = Inr result \<and>
          result \<noteq> [] \<and> set result \<subseteq> set population)) \<and>
   (population \<noteq> [] \<and> 0 \<le> elite_ratio \<and> 3 \<le> len \<and>
    \<not> elite_cut_overflows (length population) elite_ratio \<and>
    (\<forall>c\<in>set population. length c = len \<and> catalog_genes c) \<and>
    (\<forall>c. length c = len \<and> catalog_genes c \<longrightarrow> (\<exists>s. fitness c cat roll = Inr s)) \<and>
    (\<forall>i k. valid_draws (length population) len (gen_draws rnd i k))
    \<longrightarrow> (\<exists>result. genetic_algorithm srt rnd pop_size mutation_rate elite_ratio cat roll
            roll_size max_iter display fitness (Some population) rtype = Inr result \<and>
          length result = (if rtype \<noteq> ''population'' then 1 else length population))) \<and>
   (pop_size \<le> 0 \<and> 0 < max_iter
    \<longrightarrow> genetic_algorithm srt rnd pop_size mutation_rate elite_ratio cat roll roll_size
            max_iter display fitness None rtype = Inl ValueError) \<and>
   (pop_size \<le> 0 \<and> max_iter \<le> 0
    \<longrightarrow> genetic_algorithm srt rnd pop_size mutation_rate elite_ratio cat roll roll_size
            max_iter display fitness None rtype =
          (if rtype \<noteq> ''population'' then Inl IndexError else Inr [])) \<and>
   (0 < pop_size \<and> roll_size < 0
    \<longrightarrow> genetic_algorithm srt rnd pop_size mutation_rate elite_ratio cat roll roll_size
            max_iter display fitness None rtype = Inl ValueError)"
proof (intro conjI impI)
  assume "population \<noteq> [] \<and> (\<forall>c\<in>set population. \<exists>s. fitness c cat roll = Inr s) \<and>
    ((\<not> elite_cut_overflows (length population) elite_ratio \<and>
      ((0 \<le> elite_product (length population) elite_ratio \<and>
        elite_product (length population) elite_ratio < 1) \<or>
       int (length population) \<le> \<lfloor>elite_product (length population) elite_ratio\<rfloor>)) \<or>
     (1 \<le> elite_ratio \<and> elite_ratio \<le> 2 ^ 53 \<and> length population \<le> 2 ^ 53))"
  then have h: "population \<noteq> []" "\<forall>c\<in>set population. \<exists>s. fitness c cat roll = Inr s"
    "(0 \<le> elite_product (length population) elite_ratio \<and>
      elite_product (length population) elite_ratio < 1) \<or>
     int (length population) \<le> \<lfloor>elite_product (length population) elite_ratio\<rfloor>"
    "\<not> elite_cut_overflows (length population) elite_ratio"
    using elite_product_ge_size [of elite_ratio "length population"]
      elite_cut_finite [of "length population" elite_ratio] by fastforce+
  show "\<exists>result. genetic_algorithm srt rnd pop_size mutation_rate elite_ratio cat roll roll_size
            max_iter display fitness (Some population) rtype = Inr result \<and>
          result \<noteq> [] \<and> set result \<subseteq> set population"
    using genetic_algorithm_all_elite [of population fitness cat roll elite_ratio srt rnd
        pop_size mutation_rate roll_size max_iter display rtype] h assms
    by blast
next
  assume a: "population \<noteq> [] \<and> 0 \<le> elite_ratio \<and> 3 \<le> len \<and>
    \<not> elite_cut_overflows (length population) elite_ratio \<and>
    (\<forall>c\<in>set population. length c = len \<and> catalog_genes c) \<and>
    (\<forall>c. length c = len \<and> catalog_genes c \<longrightarrow> (\<exists>s. fitness c cat roll = Inr s)) \<and>
    (\<forall>i k. valid_draws (length population) len (gen_draws rnd i k))"
  then have h: "population \<noteq> []" "0 \<le> elite_ratio" "3 \<le> len"
    "\<forall>c\<in>set population. length c = len \<and> catalog_genes c"
    "\<forall>c. length c = len \<and> catalog_genes c \<longrightarrow> (\<exists>s. fitness c cat roll = Inr s)"
    "\<forall>i k. valid_draws (length population) len (gen_draws rnd i k)"
    by blast+
  have fin: "\<not> elite_cut_overflows (length population) elite_ratio" using a by blast
  show "\<exists>result. genetic_algorithm srt rnd pop_size mutation_rate elite_ratio cat roll roll_size
            max_iter display fitness (Some population) rtype = Inr result \<and>
          length result = (if rtype \<noteq> ''population'' then 1 else length population)"
    using genetic_algorithm_total [of population elite_ratio len fitness cat roll rnd srt
        pop_size mutation_rate roll_size max_iter display rtype, OF h assms fin]
    by blast
next
  assume a: "pop_size \<le> 0 \<and> 0 < max_iter"
  then obtain n where n: "nat max_iter = Suc n" by (cases "nat max_iter") simp_all
  show "genetic_algorithm srt rnd pop_size mutation_rate elite_ratio cat roll roll_size
            max_iter display fitness None rtype = Inl ValueError"
    using a by (simp add: genetic_algorithm_def init_population_def n evolve_pop_empty)
next
  assume a: "pop_size \<le> 0 \<and> max_iter \<le> 0"
  have "srt [] = []" using length_argsort [OF assms, of "[]"] by simp
  then show "genetic_algorithm srt rnd pop_size mutation_rate elite_ratio cat roll roll_size
            max_iter display fitness None rtype =
          (if rtype \<noteq> ''population'' then Inl IndexError else Inr [])"
    using a by (simp add: genetic_algorithm_def init_population_def best_index_def)
next
  assume a: "0 < pop_size \<and> roll_size < 0"
  show "genetic_algorithm srt rnd pop_size mutation_rate elite_ratio cat roll roll_size
            max_iter display fitness None rtype = Inl ValueError"
    using a by (simp add: genetic_algorithm_def init_population_def)
qed

theorem genetic_algorithm_no_validation_witness:
  "(\<exists>result. genetic_algorithm argsort_stable ga_draws_fixed (- 5) (- 1) 2 catalog_notebook
            roll_zero10 0 (- 7) (Some 0) fitness_1 (Some population3) ''population''
            = Inr result \<and>
          result \<noteq> [] \<and> set result \<subseteq> set population3) \<and>
   (\<exists>result. genetic_algorithm argsort_stable ga_draws_fixed 0 2 (1 / 2) catalog_notebook
            roll_zero10 (- 1) 2 (Some 1) fitness_1 (Some population3) ''population''
            = Inr result \<and>
          length result = 3) \<and>
   genetic_algorithm argsort_stable ga_draws_fixed 0 (1 / 10) (1 / 2) catalog_notebook
            roll_zero10 4 3 None fitness_1 None ''elite'' = Inl ValueError \<and>
   genetic_algorithm argsort_stable ga_draws_fixed (- 1) (1 / 10) (1 / 2) catalog_notebook
            roll_zero10 4 0 None fitness_1 None ''elite'' = Inl IndexError \<and>
   genetic_algorithm argsort_stable ga_draws_fixed 3 (1 / 10) (1 / 2) catalog_notebook
            roll_zero10 (- 4) 3 None fitness_1 None ''elite'' = Inl ValueError"
proof -
  have ne: "population3 \<noteq> []" and n3: "length population3 = 3"
    and wf: "\<forall>c\<in>set population3. length c = 4 \<and> catalog_genes c"
    by (simp_all add: population3_def catalog_genes_def)
  have draws: "\<forall>i k. valid_draws (length population3) 4 (gen_draws ga_draws_fixed i k)"
    by (simp add: n3 ga_draws_fixed_def valid_draws_fixed)
  have total: "\<forall>c. length c = 4 \<and> catalog_genes c
      \<longrightarrow> (\<exists>s. fitness_1 c catalog_notebook roll_zero10 = Inr s)"
    using fitness_1_notebook_total by blast
  have slot: "(1 :: rat) \<le> 2 \<and> (2 :: rat) \<le> 2 ^ 53 \<and> length population3 \<le> 2 ^ 53"
    by (simp add: n3)
  have fin: "\<not> elite_cut_overflows (length population3) (1 / 2)" by code_simp
  have w1: "\<exists>result. genetic_algorithm argsort_stable ga_draws_fixed (- 5) (- 1) 2
            catalog_notebook roll_zero10 0 (- 7) (Some 0) fitness_1 (Some population3)
            ''population'' = Inr result \<and>
          result \<noteq> [] \<and> set result \<subseteq> set population3"
    using genetic_algorithm_no_validation [OF argsort_stable_ok, of population3 fitness_1
        catalog_notebook roll_zero10 2 ga_draws_fixed "- 5" "- 1" 0 "- 7" "Some 0"
        "''population''" 4, THEN conjunct1]
      ne fitness_1_population3_total slot by blast
  have w2: "\<exists>result. genetic_algorithm argsort_stable ga_draws_fixed 0 2 (1 / 2)
            catalog_notebook roll_zero10 (- 1) 2 (Some 1) fitness_1 (Some population3)
            ''population'' = Inr result \<and>
          length result = 3"
    using genetic_algorithm_no_validation [OF argsort_stable_ok, of population3 fitness_1
        catalog_notebook roll_zero10 "1 / 2" ga_draws_fixed 0 2 "- 1" 2 "Some 1"
        "''population''" 4, THEN conjunct2, THEN conjunct1]
      ne wf draws total n3 fin by simp
  have w3: "genetic_algorithm argsort_stable ga_draws_fixed 0 (1 / 10) (1 / 2) catalog_notebook
            roll_zero10 4 3 None fitness_1 None ''elite'' = Inl ValueError"
    using genetic_algorithm_no_validation [OF argsort_stable_ok, of population3 fitness_1
        catalog_notebook roll_zero10 "1 / 2" ga_draws_fixed 0 "1 / 10" 4 3 None "''elite''" 4,
        THEN conjunct2, THEN conjunct2, THEN conjunct1] by simp
  have w4: "genetic_algorithm argsort_stable ga_draws_fixed (- 1) (1 / 10) (1 / 2)
            catalog_notebook roll_zero10 4 0 None fitness_1 None ''elite'' = Inl IndexError"
    using genetic_algorithm_no_validation [OF argsort_stable_ok, of population3 fitness_1
        catalog_notebook roll_zero10 "1 / 2" ga_draws_fixed "- 1" "1 / 10" 4 0 None "''elite''" 4,
        THEN conjunct2, THEN conjunct2, THEN conjunct2, THEN conjunct1] by simp
  have w5: "genetic_algorithm argsort_stable ga_draws_fixed 3 (1 / 10) (1 / 2) catalog_notebook
            roll_zero10 (- 4) 3 None fitness_1 None ''elite'' = Inl ValueError"
    using genetic_algorithm_no_validation [OF argsort_stable_ok, of population3 fitness_1
        catalog_notebook roll_zero10 "1 / 2" ga_draws_fixed 3 "1 / 10" "- 4" 3 None "''elite''" 4,
        THEN conjunct2, THEN conjunct2, THEN conjunct2, THEN conjunct2] by simp
  show ?thesis using w1 w2 w3 w4 w5 by blast
qed

text \<open>
  An elite ratio whose exact product with the population size is below one does not
  always leave the population as it is: with the double nearest to \<open>1/3\<close> and three
  chromosomes of length two, the computed product is \<open>1.0\<close>, two children are needed, and
  the draw of three distinct breakpoints out of two positions raises ValueError.
\<close>

lemma genetic_algorithm_short_chromosomes:
  "genetic_algorithm argsort_stable ga_draws_fixed 3 0 (round_double (1 / 3)) catalog_notebook
     roll_zero10 2 1 None fitness_1 (Some [[0, 0], [1, 1], [- 1, - 1]]) ''elite''
     = Inl ValueError"
  by code_simp

end
